theory Spec2Isabelle
  imports Main "HOL-Library.Sublist" "HOL-Library.Char_ord" "HOL-Library.List_Lexorder"
    "HOL-Library.AList"
begin

section \<open>Go strings\<close>

text \<open>
  A Go string is a sequence of bytes; it is modelled as a \<^typ>\<open>string\<close> (a list of
  \<^typ>\<open>char\<close>, one per byte).  The functions of package \<^verbatim>\<open>strings\<close> that
  \<^verbatim>\<open>main.go\<close> calls are written out as the Go library defines them.
\<close>

definition HasPrefix :: "string \<Rightarrow> string \<Rightarrow> bool" where
  "HasPrefix s pre = (length s \<ge> length pre \<and> take (length pre) s = pre)"

definition HasSuffix :: "string \<Rightarrow> string \<Rightarrow> bool" where
  "HasSuffix s suf = (length s \<ge> length suf \<and> drop (length s - length suf) s = suf)"

definition TrimPrefix :: "string \<Rightarrow> string \<Rightarrow> string" where
  "TrimPrefix s pre = (if HasPrefix s pre then drop (length pre) s else s)"

section \<open>Path Classifier\<close>

text \<open>\<^verbatim>\<open>shouldSkipDir\<close>: the loop over the block-list returns at the first match.\<close>

definition skip :: "string list" where
  "skip = [''testdata'', ''vendor'', ''.git'', ''_test'']"

fun skipLoop :: "string \<Rightarrow> string list \<Rightarrow> bool" where
  "skipLoop name [] = False"
| "skipLoop name (s # ss) = (if name = s \<or> HasSuffix name s then True else skipLoop name ss)"

definition shouldSkipDir :: "string \<Rightarrow> bool" where
  "shouldSkipDir name = skipLoop name skip"

text \<open>\<^verbatim>\<open>shouldCopyFile\<close>: Go sources but not tests, then the allow-list.\<close>

definition important :: "string list" where
  "important = [''go.mod'', ''go.sum'', ''LICENSE'', ''README.md'']"

fun importantLoop :: "string \<Rightarrow> string list \<Rightarrow> bool" where
  "importantLoop name [] = False"
| "importantLoop name (f # fs) = (if name = f then True else importantLoop name fs)"

definition shouldCopyFile :: "string \<Rightarrow> bool" where
  "shouldCopyFile name =
     (if HasSuffix name ''.go'' then
        (if HasSuffix name ''_test.go'' then False else True)
      else importantLoop name important)"

section \<open>Dependency Selector\<close>

text \<open>
  The two decisions the copy loop of \<^verbatim>\<open>main\<close> takes on a dependency \<open>dep\<close>:
  the test \<^verbatim>\<open>strings.HasPrefix(dep, modulePath)\<close> and the relative path
  \<^verbatim>\<open>TrimPrefix(TrimPrefix(dep, modulePath), "/")\<close>.
\<close>

definition inModule :: "string \<Rightarrow> string \<Rightarrow> bool" where
  "inModule dep modulePath = HasPrefix dep modulePath"

definition relPathOf :: "string \<Rightarrow> string \<Rightarrow> string" where
  "relPathOf dep modulePath = TrimPrefix (TrimPrefix dep modulePath) ''/''"

section \<open>Rewriting text: \<^verbatim>\<open>strings.ReplaceAll\<close>\<close>

text \<open>
  \<^verbatim>\<open>strings.Index\<close>: the position of the first occurrence, \<open>None\<close> for Go's \<open>-1\<close>.
\<close>

fun Index :: "string \<Rightarrow> string \<Rightarrow> nat option" where
  "Index [] substr = (if substr = [] then Some 0 else None)"
| "Index (c # cs) substr =
     (if HasPrefix (c # cs) substr then Some 0 else map_option Suc (Index cs substr))"

text \<open>
  \<^verbatim>\<open>utf8.DecodeRuneInString\<close>, the width only: one byte for ASCII and for every
  invalid or short encoding, otherwise the length the first byte announces, when the
  second byte lies in the range accepted after that first byte and the others are
  continuation bytes.
\<close>

definition byte :: "char \<Rightarrow> nat" where
  "byte c = of_char c"

definition runeSize :: "nat \<Rightarrow> nat" where
  "runeSize b0 =
     (if b0 < 0x80 then 1
      else if b0 < 0xC2 then 1
      else if b0 \<le> 0xDF then 2
      else if b0 \<le> 0xEF then 3
      else if b0 \<le> 0xF4 then 4
      else 1)"

definition acceptLo :: "nat \<Rightarrow> nat" where
  "acceptLo b0 = (if b0 = 0xE0 then 0xA0 else if b0 = 0xF0 then 0x90 else 0x80)"

definition acceptHi :: "nat \<Rightarrow> nat" where
  "acceptHi b0 = (if b0 = 0xED then 0x9F else if b0 = 0xF4 then 0x8F else 0xBF)"

definition continuation :: "nat \<Rightarrow> bool" where
  "continuation b = (0x80 \<le> b \<and> b \<le> 0xBF)"

definition runeWidth :: "string \<Rightarrow> nat" where
  "runeWidth s =
     (case s of
        [] \<Rightarrow> 0
      | c0 # r \<Rightarrow>
          (let sz = runeSize (byte c0) in
           if sz = 1 then 1
           else if length s < sz then 1
           else if byte (s ! 1) < acceptLo (byte c0) \<or> acceptHi (byte c0) < byte (s ! 1) then 1
           else if sz \<le> 2 then 2
           else if \<not> continuation (byte (s ! 2)) then 1
           else if sz \<le> 3 then 3
           else if \<not> continuation (byte (s ! 3)) then 1
           else 4))"

lemma runeWidth_pos: "s \<noteq> [] \<Longrightarrow> 0 < runeWidth s"
  by (cases s) (simp_all add: runeWidth_def Let_def)

text \<open>\<^verbatim>\<open>utf8.RuneCountInString\<close>: the number of decoding steps that consume the string.\<close>

function RuneCountInString :: "string \<Rightarrow> nat" where
  "RuneCountInString s = (if s = [] then 0 else Suc (RuneCountInString (drop (runeWidth s) s)))"
  by pat_completeness auto
termination
  by (relation "measure length") (auto simp: runeWidth_pos)

lemma Index_bound: "Index s substr = Some i \<Longrightarrow> i + length substr \<le> length s"
proof (induction s arbitrary: i)
  case Nil
  then show ?case by (simp split: if_splits)
next
  case (Cons c cs)
  then show ?case by (auto simp: HasPrefix_def split: if_splits)
qed

text \<open>
  \<^verbatim>\<open>strings.Count\<close>: for the empty substring the rune count plus one; otherwise the
  loop that looks for the next occurrence after the end of the last one.
\<close>

function countLoop :: "string \<Rightarrow> string \<Rightarrow> nat" where
  "countLoop s substr =
     (if substr = [] then 0
      else (case Index s substr of
              None \<Rightarrow> 0
            | Some i \<Rightarrow> Suc (countLoop (drop (i + length substr) s) substr)))"
  by pat_completeness auto
termination
proof (relation "measure (\<lambda>(s, substr). length s)", goal_cases)
  case 1
  then show ?case by simp
next
  case (2 s substr i)
  then have "i + length substr \<le> length s" and "0 < length substr"
    by (simp_all add: Index_bound)
  then have "length s - (i + length substr) < length s"
    by arith
  then show ?case by simp
qed

definition Count :: "string \<Rightarrow> string \<Rightarrow> nat" where
  "Count s substr = (if substr = [] then RuneCountInString s + 1 else countLoop s substr)"

text \<open>
  \<^verbatim>\<open>strings.Replace(s, old, new, -1)\<close>.  The loop runs once per counted occurrence;
  \<open>rest\<close> is \<^verbatim>\<open>s[start:]\<close>, \<open>first\<close> tells the iteration \<^verbatim>\<open>i == 0\<close>, and the
  builder's content is the returned string.  \<open>Index\<close> cannot miss inside the loop,
  because the loop runs \<open>Count\<close> times (lemma \<open>Index_of_countLoop\<close>); Go would panic
  on the slice there, the model returns the rest unchanged.
\<close>

fun replaceLoop :: "string \<Rightarrow> string \<Rightarrow> nat \<Rightarrow> bool \<Rightarrow> string \<Rightarrow> string" where
  "replaceLoop old new 0 first rest = rest"
| "replaceLoop old new (Suc k) first rest =
     (if old = [] then
        (let j = (if first then 0 else runeWidth rest)
         in take j rest @ new @ replaceLoop old new k False (drop j rest))
      else
        (case Index rest old of
           None \<Rightarrow> rest
         | Some i \<Rightarrow> take i rest @ new @ replaceLoop old new k False (drop (i + length old) rest)))"

definition ReplaceAll :: "string \<Rightarrow> string \<Rightarrow> string \<Rightarrow> string" where
  "ReplaceAll s old new =
     (if old = new then s
      else (let m = Count s old in
            if m = 0 then s else replaceLoop old new m True s))"

section \<open>The file system\<close>

text \<open>
  A path is the list of its components from the root, so \<^verbatim>\<open>filepath.Join(dir, name)\<close>
  with a directory entry's name is \<open>dir @ [name]\<close>.  The store maps paths to nodes: a
  regular file with its permission mode and content, or a directory with its mode.
  Symbolic links and special files are not modelled.  The world also records, in order,
  every path opened for writing.

  The model of package \<^verbatim>\<open>os\<close> has no permission enforcement, no umask and no
  resource limits: the mode bits are data, and an operation fails exactly when a path
  is missing or a file stands where a directory is needed (or the reverse).
\<close>

type_synonym path = "string list"

type_synonym FileMode = nat

datatype node = File FileMode string | Dir FileMode

datatype error = ENOENT | ENOTDIR | EISDIR | EEXIST | NilDeref

record world =
  files :: "(path \<times> node) list"
  writes :: "path list"

record FileInfo =
  fi_name :: string
  fi_isDir :: bool
  fi_mode :: FileMode

record DirEntry =
  de_name :: string
  de_isDir :: bool

definition lookup :: "world \<Rightarrow> path \<Rightarrow> node option" where
  "lookup w p = map_of (files w) p"

definition put :: "world \<Rightarrow> path \<Rightarrow> node \<Rightarrow> world" where
  "put w p v = w\<lparr>files := AList.update p v (files w)\<rparr>"

definition isFileNode :: "node option \<Rightarrow> bool" where
  "isFileNode v = (case v of Some (File m c) \<Rightarrow> True | _ \<Rightarrow> False)"

definition isDirNode :: "node option \<Rightarrow> bool" where
  "isDirNode v = (case v of Some (Dir m) \<Rightarrow> True | _ \<Rightarrow> False)"

definition nodeMode :: "node \<Rightarrow> FileMode" where
  "nodeMode v = (case v of File m c \<Rightarrow> m | Dir m \<Rightarrow> m)"

text \<open>The error of a path that does not resolve: a file on the way, or nothing there.\<close>

definition absent :: "world \<Rightarrow> path \<Rightarrow> error" where
  "absent w p =
     (if list_ex (\<lambda>q. isFileNode (lookup w q)) (butlast (prefixes p)) then ENOTDIR else ENOENT)"

definition base :: "path \<Rightarrow> string" where
  "base p = (if p = [] then ''/'' else last p)"

definition infoOf :: "path \<Rightarrow> node \<Rightarrow> FileInfo" where
  "infoOf p v = \<lparr>fi_name = base p, fi_isDir = isDirNode (Some v), fi_mode = nodeMode v\<rparr>"

text \<open>\<^verbatim>\<open>os.Stat\<close> and \<^verbatim>\<open>os.Lstat\<close> (the same without symbolic links).\<close>

definition os_Stat :: "world \<Rightarrow> path \<Rightarrow> error + FileInfo" where
  "os_Stat w p = (case lookup w p of None \<Rightarrow> Inl (absent w p) | Some v \<Rightarrow> Inr (infoOf p v))"

definition os_Lstat :: "world \<Rightarrow> path \<Rightarrow> error + FileInfo" where
  "os_Lstat w p = os_Stat w p"

text \<open>The names in a directory, sorted as \<^verbatim>\<open>os.ReadDir\<close> and \<^verbatim>\<open>filepath.Walk\<close> sort them.\<close>

definition children :: "world \<Rightarrow> path \<Rightarrow> string list" where
  "children w p =
     sort (remdups (map last (filter (\<lambda>q. q \<noteq> [] \<and> butlast q = p) (map fst (files w)))))"

definition readDirNames :: "world \<Rightarrow> path \<Rightarrow> error + string list" where
  "readDirNames w p =
     (case lookup w p of
        None \<Rightarrow> Inl (absent w p)
      | Some (File m c) \<Rightarrow> Inl ENOTDIR
      | Some (Dir m) \<Rightarrow> Inr (children w p))"

definition os_ReadDir :: "world \<Rightarrow> path \<Rightarrow> error + DirEntry list" where
  "os_ReadDir w p =
     (case readDirNames w p of
        Inl e \<Rightarrow> Inl e
      | Inr names \<Rightarrow>
          Inr (map (\<lambda>n. \<lparr>de_name = n, de_isDir = isDirNode (lookup w (p @ [n]))\<rparr>) names))"

text \<open>
  \<^verbatim>\<open>os.Mkdir\<close> creates one directory below an existing one; \<^verbatim>\<open>os.MkdirAll\<close>
  succeeds at once on an existing directory, fails on an existing file, and otherwise
  makes the parent (unless the parent is the root) and then the directory.
\<close>

definition os_Mkdir :: "world \<Rightarrow> path \<Rightarrow> FileMode \<Rightarrow> world \<times> error option" where
  "os_Mkdir w p perm =
     (if lookup w p \<noteq> None then (w, Some EEXIST)
      else if p = [] then (w, Some ENOENT)
      else (case lookup w (butlast p) of
              Some (Dir m) \<Rightarrow> (put w p (Dir perm), None)
            | Some (File m c) \<Rightarrow> (w, Some ENOTDIR)
            | None \<Rightarrow> (w, Some (absent w p))))"

function os_MkdirAll :: "world \<Rightarrow> path \<Rightarrow> FileMode \<Rightarrow> world \<times> error option" where
  "os_MkdirAll w p perm =
     (case lookup w p of
        Some (Dir m) \<Rightarrow> (w, None)
      | Some (File m c) \<Rightarrow> (w, Some ENOTDIR)
      | None \<Rightarrow>
          (if 1 < length p then
             (case os_MkdirAll w (butlast p) perm of
                (w1, Some e) \<Rightarrow> (w1, Some e)
              | (w1, None) \<Rightarrow> os_Mkdir w1 p perm)
           else os_Mkdir w p perm))"
  by pat_completeness auto
termination
  by (relation "measure (\<lambda>(w, p, perm). length p)") auto

text \<open>\<^verbatim>\<open>os.ReadFile\<close> and \<^verbatim>\<open>os.WriteFile\<close> (which creates with \<open>perm\<close>, else truncates).\<close>

definition os_ReadFile :: "world \<Rightarrow> path \<Rightarrow> error + string" where
  "os_ReadFile w p =
     (case lookup w p of
        None \<Rightarrow> Inl (absent w p)
      | Some (Dir m) \<Rightarrow> Inl EISDIR
      | Some (File m c) \<Rightarrow> Inr c)"

text \<open>
  \<^verbatim>\<open>os.OpenFile(p, O_WRONLY|O_CREATE|O_TRUNC, perm)\<close>: an existing file is emptied and
  keeps its mode, a new file gets \<open>perm\<close>; the handle is the path.
\<close>

definition openTrunc :: "world \<Rightarrow> path \<Rightarrow> FileMode \<Rightarrow> world \<times> error option" where
  "openTrunc w p perm =
     (case lookup w p of
        Some (Dir m) \<Rightarrow> (w, Some EISDIR)
      | Some (File m c) \<Rightarrow> ((put w p (File m []))\<lparr>writes := writes w @ [p]\<rparr>, None)
      | None \<Rightarrow>
          (if p = [] then (w, Some EISDIR)
           else (case lookup w (butlast p) of
                   Some (Dir m) \<Rightarrow> ((put w p (File perm []))\<lparr>writes := writes w @ [p]\<rparr>, None)
                 | Some (File m c) \<Rightarrow> (w, Some ENOTDIR)
                 | None \<Rightarrow> (w, Some (absent w p)))))"

text \<open>Writing through an open handle replaces the content of the file at that path.\<close>

definition writeContent :: "world \<Rightarrow> path \<Rightarrow> string \<Rightarrow> world" where
  "writeContent w p data =
     (case lookup w p of Some (File m c) \<Rightarrow> put w p (File m data) | _ \<Rightarrow> w)"

definition os_WriteFile :: "world \<Rightarrow> path \<Rightarrow> string \<Rightarrow> FileMode \<Rightarrow> world \<times> error option" where
  "os_WriteFile w p data perm =
     (case openTrunc w p perm of
        (w1, Some e) \<Rightarrow> (w1, Some e)
      | (w1, None) \<Rightarrow> (writeContent w1 p data, None))"

section \<open>Tree Copier\<close>

text \<open>
  \<^verbatim>\<open>copyFile\<close>: open the source, stat it, open the destination for writing (created
  with the source's mode, or truncated), then \<^verbatim>\<open>io.Copy\<close>, which reads what the source
  holds at that moment and fails on a directory.
\<close>

definition copyFile :: "world \<Rightarrow> path \<Rightarrow> path \<Rightarrow> world \<times> error option" where
  "copyFile w src dst =
     (case os_Stat w src of
        Inl e \<Rightarrow> (w, Some e)
      | Inr srcInfo \<Rightarrow>
          (case openTrunc w dst (fi_mode srcInfo) of
             (w1, Some e) \<Rightarrow> (w1, Some e)
           | (w1, None) \<Rightarrow>
               (case os_ReadFile w1 src of
                  Inl e \<Rightarrow> (w1, Some e)
                | Inr content \<Rightarrow> (writeContent w1 dst content, None))))"

text \<open>
  \<^verbatim>\<open>copyDir\<close> and its loop over the entries.  The first argument bounds the depth of
  the recursion: \<open>None\<close> says that the copy did not finish within it.
\<close>

fun copyDir :: "nat \<Rightarrow> world \<Rightarrow> path \<Rightarrow> path \<Rightarrow> (world \<times> error option) option"
  and copyEntries :: "nat \<Rightarrow> world \<Rightarrow> path \<Rightarrow> path \<Rightarrow> DirEntry list \<Rightarrow> (world \<times> error option) option"
where
  "copyDir 0 w src dst = None"
| "copyDir (Suc n) w src dst =
     (case os_Stat w src of
        Inl e \<Rightarrow> Some (w, Some e)
      | Inr srcInfo \<Rightarrow>
          (case os_MkdirAll w dst (fi_mode srcInfo) of
             (w1, Some e) \<Rightarrow> Some (w1, Some e)
           | (w1, None) \<Rightarrow>
               (case os_ReadDir w1 src of
                  Inl e \<Rightarrow> Some (w1, Some e)
                | Inr entries \<Rightarrow> copyEntries n w1 src dst entries)))"
| "copyEntries n w src dst [] = Some (w, None)"
| "copyEntries n w src dst (entry # rest) =
     (let srcPath = src @ [de_name entry]; dstPath = dst @ [de_name entry] in
      if de_isDir entry then
        (if shouldSkipDir (de_name entry) then copyEntries n w src dst rest
         else (case copyDir n w srcPath dstPath of
                 None \<Rightarrow> None
               | Some (w1, Some e) \<Rightarrow> Some (w1, Some e)
               | Some (w1, None) \<Rightarrow> copyEntries n w1 src dst rest))
      else
        (if shouldCopyFile (de_name entry) then
           (case copyFile w srcPath dstPath of
              (w1, Some e) \<Rightarrow> Some (w1, Some e)
            | (w1, None) \<Rightarrow> copyEntries n w1 src dst rest)
         else copyEntries n w src dst rest))"

section \<open>Module Rewriter\<close>

text \<open>
  \<^verbatim>\<open>filepath.Walk\<close>: the function is called on the root and, in sorted order, on
  everything below it; the first error it returns ends the walk.  The function gets
  the file's info, or an error, or both (a directory that cannot be read).  The
  sentinel errors \<^verbatim>\<open>SkipDir\<close> and \<^verbatim>\<open>SkipAll\<close> are left out: the function
  of \<^verbatim>\<open>replaceModuleInFiles\<close> never returns them.  The first argument bounds the depth.
\<close>

type_synonym WalkFunc = "world \<Rightarrow> path \<Rightarrow> FileInfo option \<Rightarrow> error option \<Rightarrow> world \<times> error option"

fun walk :: "nat \<Rightarrow> WalkFunc \<Rightarrow> world \<Rightarrow> path \<Rightarrow> FileInfo \<Rightarrow> (world \<times> error option) option"
  and walkNames :: "nat \<Rightarrow> WalkFunc \<Rightarrow> world \<Rightarrow> path \<Rightarrow> string list \<Rightarrow> (world \<times> error option) option"
where
  "walk 0 walkFn w p info = None"
| "walk (Suc n) walkFn w p info =
     (if \<not> fi_isDir info then Some (walkFn w p (Some info) None)
      else
        (case readDirNames w p of
           Inl err \<Rightarrow> Some (walkFn w p (Some info) (Some err))
         | Inr names \<Rightarrow>
             (case walkFn w p (Some info) None of
                (w1, Some err1) \<Rightarrow> Some (w1, Some err1)
              | (w1, None) \<Rightarrow> walkNames n walkFn w1 p names)))"
| "walkNames n walkFn w p [] = Some (w, None)"
| "walkNames n walkFn w p (name # names) =
     (let filename = p @ [name] in
      case os_Lstat w filename of
        Inl err \<Rightarrow>
          (case walkFn w filename None (Some err) of
             (w1, Some e) \<Rightarrow> Some (w1, Some e)
           | (w1, None) \<Rightarrow> walkNames n walkFn w1 p names)
      | Inr fileInfo \<Rightarrow>
          (case walk n walkFn w filename fileInfo of
             None \<Rightarrow> None
           | Some (w1, Some e) \<Rightarrow> Some (w1, Some e)
           | Some (w1, None) \<Rightarrow> walkNames n walkFn w1 p names))"

definition Walk :: "nat \<Rightarrow> WalkFunc \<Rightarrow> world \<Rightarrow> path \<Rightarrow> (world \<times> error option) option" where
  "Walk n walkFn w root =
     (case os_Lstat w root of
        Inl err \<Rightarrow> Some (walkFn w root None (Some err))
      | Inr info \<Rightarrow> walk n walkFn w root info)"

text \<open>
  The function literal of \<^verbatim>\<open>replaceModuleInFiles\<close>.  Walk never calls it with neither
  an info nor an error; there Go would dereference nil.
\<close>

definition goName :: "string \<Rightarrow> bool" where
  "goName n = (\<not> (\<not> HasSuffix n ''.go'' \<and> n \<noteq> ''go.mod''))"

definition rewriteFn :: "string \<Rightarrow> string \<Rightarrow> WalkFunc" where
  "rewriteFn oldModule newModule w p info err =
     (case err of
        Some e \<Rightarrow> (w, Some e)
      | None \<Rightarrow>
          (case info of
             None \<Rightarrow> (w, Some NilDeref)
           | Some i \<Rightarrow>
               if fi_isDir i then (w, None)
               else if \<not> goName (fi_name i) then (w, None)
               else (case os_ReadFile w p of
                       Inl e \<Rightarrow> (w, Some e)
                     | Inr content \<Rightarrow>
                         (let newContent = ReplaceAll content oldModule newModule in
                          if newContent \<noteq> content then os_WriteFile w p newContent (fi_mode i)
                          else (w, None)))))"

text \<open>
  The walk goes one step deeper only into a path of the store, so a depth beyond the
  longest path of the store is never reached (theorem \<open>replaceModuleInFiles_returns\<close>).
\<close>

definition depth :: "world \<Rightarrow> nat" where
  "depth w = fold max (map (\<lambda>kv. length (fst kv)) (files w)) 0"

definition replaceModuleInFiles ::
    "world \<Rightarrow> path \<Rightarrow> string \<Rightarrow> string \<Rightarrow> (world \<times> error option) option" where
  "replaceModuleInFiles w dir oldModule newModule =
     Walk (Suc (depth w)) (rewriteFn oldModule newModule) w dir"

section \<open>Orchestrator: the copy loop of \<^verbatim>\<open>main\<close>\<close>

text \<open>
  The flags of the command line.  The output directory is taken as resolved to a path
  from the root, like the module's directory that \<^verbatim>\<open>go list\<close> prints.
\<close>

record config =
  cfg_pkg :: string
  cfg_output :: path
  cfg_moduleOnly :: bool
  cfg_modName :: string
  cfg_verbose :: bool

text \<open>The only place where \<^verbatim>\<open>main\<close> reads the flag \<^verbatim>\<open>-module-only\<close>: the expression for goda.\<close>

definition selector :: "config \<Rightarrow> string" where
  "selector cfg = (if cfg_moduleOnly cfg then '':mod'' else '':all'')"

definition godaExpr :: "config \<Rightarrow> string" where
  "godaExpr cfg = cfg_pkg cfg @ selector cfg"

text \<open>
  \<^verbatim>\<open>filepath.Join(dir, rel)\<close> for a slash-separated \<open>rel\<close>: the components of \<open>rel\<close>
  are appended, with the cleaning \<^verbatim>\<open>filepath.Clean\<close> does (an empty component and
  \<open>.\<close> are dropped, \<open>..\<close> removes the component before it).
\<close>

fun splitOn :: "char \<Rightarrow> string \<Rightarrow> string list" where
  "splitOn sep [] = [[]]"
| "splitOn sep (c # cs) =
     (if c = sep then [] # splitOn sep cs
      else (case splitOn sep cs of
              [] \<Rightarrow> [[c]]
            | x # xs \<Rightarrow> (c # x) # xs))"

definition Join :: "path \<Rightarrow> string \<Rightarrow> path" where
  "Join dir rel =
     foldl (\<lambda>p c. if c = [] \<or> c = ''.'' then p else if c = ''..'' then butlast p else p @ [c])
       dir (splitOn (CHR ''/'') rel)"

text \<open>
  What the loop prints (the first two on standard output and only with \<^verbatim>\<open>-v\<close>, the
  third on standard error), and what it has done so far.  \<open>copied\<close> is a Go \<open>int\<close> that
  counts entries of a list, so it cannot overflow.
\<close>

datatype message =
  SkippingExternal string
  | Copying path path
  | ErrorCopying string error

record progress =
  pr_world :: world
  pr_stdout :: "message list"
  pr_stderr :: "message list"
  pr_copied :: nat

fun copyLoop :: "nat \<Rightarrow> config \<Rightarrow> string \<Rightarrow> path \<Rightarrow> progress \<Rightarrow> string list \<Rightarrow> progress option" where
  "copyLoop n cfg modulePath moduleDir st [] = Some st"
| "copyLoop n cfg modulePath moduleDir st (dep # deps) =
     (if \<not> HasPrefix dep modulePath then
        copyLoop n cfg modulePath moduleDir
          (if cfg_verbose cfg then st\<lparr>pr_stdout := pr_stdout st @ [SkippingExternal dep]\<rparr> else st)
          deps
      else
        (let relPath = TrimPrefix (TrimPrefix dep modulePath) ''/'';
             srcDir = Join moduleDir relPath;
             dstDir = Join (cfg_output cfg) relPath;
             st1 = (if cfg_verbose cfg
                    then st\<lparr>pr_stdout := pr_stdout st @ [Copying srcDir dstDir]\<rparr> else st)
         in case copyDir n (pr_world st1) srcDir dstDir of
              None \<Rightarrow> None
            | Some (w1, Some err) \<Rightarrow>
                copyLoop n cfg modulePath moduleDir
                  (st1\<lparr>pr_world := w1, pr_stderr := pr_stderr st1 @ [ErrorCopying relPath err]\<rparr>)
                  deps
            | Some (w1, None) \<Rightarrow>
                copyLoop n cfg modulePath moduleDir
                  (st1\<lparr>pr_world := w1, pr_copied := pr_copied st1 + 1\<rparr>)
                  deps))"

section \<open>Notions used in the statements and the proofs\<close>

definition paths :: "world \<Rightarrow> path set" where
  "paths w = fst ` set (files w)"

definition shapeOf :: "node option \<Rightarrow> (bool \<times> FileMode) option" where
  "shapeOf v = map_option (\<lambda>x. (isDirNode (Some x), nodeMode x)) v"

definition sameShape :: "world \<Rightarrow> world \<Rightarrow> bool" where
  "sameShape w w' = (\<forall>q. shapeOf (lookup w' q) = shapeOf (lookup w q))"

text \<open>What one call of the function does.\<close>

definition rewritesAt :: "string \<Rightarrow> string \<Rightarrow> world \<Rightarrow> path \<Rightarrow> bool" where
  "rewritesAt old new w p =
     (case lookup w p of
        Some (File m c) \<Rightarrow> goName (base p) \<and> ReplaceAll c old new \<noteq> c
      | _ \<Rightarrow> False)"

definition rewriteNode :: "string \<Rightarrow> string \<Rightarrow> path \<Rightarrow> node \<Rightarrow> node" where
  "rewriteNode old new p v =
     (case v of
        File m c \<Rightarrow> File m (if goName (base p) then ReplaceAll c old new else c)
      | Dir m \<Rightarrow> Dir m)"

definition wellFormed :: "world \<Rightarrow> bool" where
  "wellFormed w =
     list_all (\<lambda>kv. fst kv = [] \<or> isDirNode (lookup w (butlast (fst kv)))) (files w)"

text \<open>The effect of a successful walk on a set of paths.\<close>

definition rewrote :: "string \<Rightarrow> string \<Rightarrow> world \<Rightarrow> world \<Rightarrow> path set \<Rightarrow> bool" where
  "rewrote old new w w' S \<longleftrightarrow>
     (\<forall>q. lookup w' q = (if q \<in> S then map_option (rewriteNode old new q) (lookup w q)
                         else lookup w q))
     \<and> (\<exists>ws. writes w' = writes w @ ws \<and> distinct ws \<and> set ws = {q \<in> S. rewritesAt old new w q})"

definition below :: "path \<Rightarrow> path set" where
  "below p = {q. prefix p q}"

text \<open>
  The replacement in the words of the specification: scanning from the left, every
  occurrence of \<open>old\<close> that does not overlap an earlier one is replaced by \<open>new\<close>.
  The empty string occurs before every rune and at the end.
\<close>

function replaceScan :: "string \<Rightarrow> string \<Rightarrow> string \<Rightarrow> string" where
  "replaceScan old new s =
     (if old = [] \<or> s = [] then s
      else if prefix old s then new @ replaceScan old new (drop (length old) s)
      else hd s # replaceScan old new (tl s))"
  by pat_completeness auto
termination
  by (relation "measure (\<lambda>(old, new, s). length s)") auto

function runes :: "string \<Rightarrow> string list" where
  "runes s = (if s = [] then [] else take (runeWidth s) s # runes (drop (runeWidth s) s))"
  by pat_completeness auto
termination
  by (relation "measure length") (auto simp: runeWidth_pos)

definition replaceEverySpec :: "string \<Rightarrow> string \<Rightarrow> string \<Rightarrow> string" where
  "replaceEverySpec old new s =
     (if old = [] then new @ concat (map (\<lambda>r. r @ new) (runes s)) else replaceScan old new s)"

definition occursIn :: "string \<Rightarrow> string \<Rightarrow> bool" where
  "occursIn old s = (\<exists>pre post. s = pre @ old @ post)"






section \<open>Facts about the string functions\<close>

lemma HasPrefix_iff: "HasPrefix s pre \<longleftrightarrow> prefix pre s"
  unfolding HasPrefix_def
  by (metis append_eq_conv_conj prefix_def prefix_length_le take_is_prefix)

lemma HasSuffix_iff: "HasSuffix s suf \<longleftrightarrow> suffix suf s"
proof
  assume "HasSuffix s suf"
  then have "drop (length s - length suf) s = suf"
    by (simp add: HasSuffix_def)
  then show "suffix suf s"
    by (metis suffix_drop)
next
  assume "suffix suf s"
  then obtain zs where "s = zs @ suf"
    by (auto simp: suffix_def)
  then show "HasSuffix s suf"
    by (simp add: HasSuffix_def)
qed

lemma TrimPrefix_append: "TrimPrefix (pre @ r) pre = r"
  by (simp add: TrimPrefix_def HasPrefix_def)

lemma skipLoop_iff: "skipLoop name ss \<longleftrightarrow> (\<exists>s. s \<in> set ss \<and> (name = s \<or> HasSuffix name s))"
  by (induction ss) auto

lemma importantLoop_iff: "importantLoop name fs \<longleftrightarrow> name \<in> set fs"
  by (induction fs) auto

section \<open>Facts about the store and the walk\<close>

lemma lookup_None_iff: "lookup w p = None \<longleftrightarrow> p \<notin> paths w"
  by (simp add: lookup_def paths_def map_of_eq_None_iff)

lemma lookup_put: "lookup (put w p v) q = (if q = p then Some v else lookup w q)"
  by (simp add: lookup_def put_def update_conv')

lemma writes_put: "writes (put w p v) = writes w"
  by (simp add: put_def)

lemma put_same: "lookup w p = Some v \<Longrightarrow> put w p v = w"
  by (simp add: lookup_def put_def update_triv)

lemma lookup_writes_upd: "lookup (w\<lparr>writes := l\<rparr>) q = lookup w q"
  by (simp add: lookup_def)

lemma children_set: "set (children w p) = {n. lookup w (p @ [n]) \<noteq> None}"
proof -
  have "set (children w p) = last ` {q \<in> paths w. q \<noteq> [] \<and> butlast q = p}"
    by (auto simp: children_def paths_def)
  also have "\<dots> = {n. p @ [n] \<in> paths w}"
  proof (intro set_eqI iffI)
    fix n assume "n \<in> last ` {q \<in> paths w. q \<noteq> [] \<and> butlast q = p}"
    then obtain q where "q \<in> paths w" "q \<noteq> []" "butlast q = p" "n = last q" by auto
    then show "n \<in> {n. p @ [n] \<in> paths w}" by (metis append_butlast_last_id mem_Collect_eq)
  next
    fix n assume "n \<in> {n. p @ [n] \<in> paths w}"
    then have "p @ [n] \<in> {q \<in> paths w. q \<noteq> [] \<and> butlast q = p}" by simp
    then show "n \<in> last ` {q \<in> paths w. q \<noteq> [] \<and> butlast q = p}"
      by (metis (no_types, lifting) image_eqI last_snoc)
  qed
  finally show ?thesis by (simp add: lookup_None_iff)
qed

lemma children_sorted_list: "children w p = sorted_list_of_set {n. lookup w (p @ [n]) \<noteq> None}"
proof -
  let ?xs = "map last (filter (\<lambda>q. q \<noteq> [] \<and> butlast q = p) (map fst (files w)))"
  have a: "children w p = sorted_list_of_set (set ?xs)"
    unfolding children_def sorted_list_of_set_sort_remdups ..
  have b: "set ?xs = {n. lookup w (p @ [n]) \<noteq> None}"
    using children_set [of w p] by (simp add: children_def)
  show ?thesis
    unfolding a b ..
qed

lemma children_distinct: "distinct (children w p)"
  by (simp add: children_sorted_list)

lemma sameShape_refl: "sameShape w w"
  by (simp add: sameShape_def)

lemma sameShape_trans: "sameShape w w1 \<Longrightarrow> sameShape w1 w2 \<Longrightarrow> sameShape w w2"
  by (simp add: sameShape_def)

lemma sameShape_None: "sameShape w w' \<Longrightarrow> lookup w' q = None \<longleftrightarrow> lookup w q = None"
  by (metis sameShape_def shapeOf_def map_option_is_None)

lemma sameShape_children: "sameShape w w' \<Longrightarrow> children w' p = children w p"
  by (simp add: children_sorted_list sameShape_None)

lemma fold_max_ge: "(x::nat) \<in> set xs \<Longrightarrow> x \<le> fold max xs a"
proof (induction xs arbitrary: a)
  case Nil
  then show ?case by simp
next
  case (Cons y ys)
  have mono: "b \<le> fold max ys b" for b
    by (induction ys arbitrary: b) (auto intro: order_trans [OF max.cobounded2])
  from Cons show ?case
    using mono [of "max y a"] by auto
qed

lemma depth_ge: "lookup w p \<noteq> None \<Longrightarrow> length p \<le> depth w"
proof -
  assume "lookup w p \<noteq> None"
  then have "p \<in> paths w" by (simp add: lookup_None_iff)
  then have "length p \<in> set (map (\<lambda>kv. length (fst kv)) (files w))"
    by (auto simp: paths_def)
  then show ?thesis
    unfolding depth_def by (rule fold_max_ge)
qed

lemma put_put: "put (put w p v) p v' = put w p v'"
  by (simp add: put_def update_last)

lemma os_WriteFile_existing:
  "lookup w p = Some (File m c) \<Longrightarrow>
   os_WriteFile w p data perm = ((put w p (File m data))\<lparr>writes := writes w @ [p]\<rparr>, None)"
proof -
  assume a: "lookup w p = Some (File m c)"
  let ?w1 = "(put w p (File m []))\<lparr>writes := writes w @ [p]\<rparr>"
  have 1: "openTrunc w p perm = (?w1, None)"
    using a by (simp add: openTrunc_def)
  have 2: "lookup ?w1 p = Some (File m [])"
    by (simp add: lookup_writes_upd lookup_put)
  have 3: "writeContent ?w1 p data = put ?w1 p (File m data)"
    using 2 by (simp add: writeContent_def)
  have 4: "put ?w1 p (File m data) = (put w p (File m data))\<lparr>writes := writes w @ [p]\<rparr>"
    by (simp add: put_def update_last)
  show ?thesis
    by (simp add: os_WriteFile_def 1 3 4)
qed

lemma rewriteFn_info:
  "lookup w p = Some v \<Longrightarrow>
   rewriteFn old new w p (Some (infoOf p v)) None =
     (if rewritesAt old new w p
      then (put w p (rewriteNode old new p v))\<lparr>writes := writes w @ [p]\<rparr> else w, None)"
  by (cases v)
    (auto simp: rewriteFn_def infoOf_def isDirNode_def nodeMode_def os_ReadFile_def Let_def
      rewritesAt_def rewriteNode_def os_WriteFile_existing)

lemma rewriteFn_err: "rewriteFn old new w p info (Some e) = (w, Some e)"
  by (simp add: rewriteFn_def)

lemma rewriteFn_shape: "rewriteFn old new w p info err = (w', r) \<Longrightarrow> sameShape w w'"
  by (auto simp: rewriteFn_def os_ReadFile_def Let_def os_WriteFile_existing sameShape_def
      lookup_put lookup_writes_upd shapeOf_def isDirNode_def nodeMode_def
      split: option.splits if_splits node.splits)

lemma walkNames_shape:
  assumes IH: "\<And>w p info w' r. walk n (rewriteFn old new) w p info = Some (w', r) \<Longrightarrow> sameShape w w'"
  shows "walkNames n (rewriteFn old new) w p names = Some (w', r) \<Longrightarrow> sameShape w w'"
proof (induction names arbitrary: w)
  case Nil
  then show ?case by (simp add: sameShape_refl)
next
  case (Cons name names)
  show ?case
  proof (cases "os_Lstat w (p @ [name])")
    case (Inl err)
    with Cons.prems show ?thesis
      by (simp add: rewriteFn_err sameShape_refl)
  next
    case (Inr fileInfo)
    show ?thesis
    proof (cases "walk n (rewriteFn old new) w (p @ [name]) fileInfo")
      case None
      with Inr Cons.prems show ?thesis by simp
    next
      case (Some res)
      obtain w1 r1 where res: "res = (w1, r1)" by (cases res)
      have s1: "sameShape w w1" using IH Some res by blast
      show ?thesis
      proof (cases r1)
        case None
        with Inr Some res Cons.prems
        have "walkNames n (rewriteFn old new) w1 p names = Some (w', r)" by simp
        then have "sameShape w1 w'" by (rule Cons.IH)
        with s1 show ?thesis by (rule sameShape_trans)
      next
        case (Some e)
        with Inr \<open>walk n (rewriteFn old new) w (p @ [name]) fileInfo = Some res\<close> res Cons.prems
        have "w' = w1" by simp
        with s1 show ?thesis by simp
      qed
    qed
  qed
qed

lemma walk_shape: "walk n (rewriteFn old new) w p info = Some (w', r) \<Longrightarrow> sameShape w w'"
proof (induction n arbitrary: w p info w' r)
  case 0
  then show ?case by simp
next
  case (Suc n)
  show ?case
  proof (cases "fi_isDir info")
    case False
    with Suc.prems show ?thesis
      by (auto intro: rewriteFn_shape)
  next
    case True
    show ?thesis
    proof (cases "readDirNames w p")
      case (Inl err)
      with True Suc.prems show ?thesis by (simp add: rewriteFn_err sameShape_refl)
    next
      case (Inr names)
      obtain w1 r1 where f: "rewriteFn old new w p (Some info) None = (w1, r1)"
        by (cases "rewriteFn old new w p (Some info) None")
      have s1: "sameShape w w1" using f by (rule rewriteFn_shape)
      show ?thesis
      proof (cases r1)
        case None
        with True Inr f Suc.prems
        have "walkNames n (rewriteFn old new) w1 p names = Some (w', r)" by simp
        then have "sameShape w1 w'"
          using walkNames_shape Suc.IH by blast
        with s1 show ?thesis by (rule sameShape_trans)
      next
        case (Some e)
        with True Inr f Suc.prems have "w' = w1" by simp
        with s1 show ?thesis by simp
      qed
    qed
  qed
qed

lemma Walk_shape: "Walk n (rewriteFn old new) w p = Some (w', r) \<Longrightarrow> sameShape w w'"
  by (auto simp: Walk_def rewriteFn_err sameShape_refl walk_shape split: sum.splits)

text \<open>With fuel beyond the depth of the store the walk returns.\<close>

lemma walkNames_returns:
  assumes IH: "\<And>w p info. (\<forall>q. lookup w q \<noteq> None \<longrightarrow> length q < n + length p) \<Longrightarrow>
      lookup w p \<noteq> None \<Longrightarrow> walk n (rewriteFn old new) w p info \<noteq> None"
  shows "(\<forall>q. lookup w q \<noteq> None \<longrightarrow> length q \<le> n + length p) \<Longrightarrow>
     walkNames n (rewriteFn old new) w p names \<noteq> None"
proof (induction names arbitrary: w)
  case Nil
  then show ?case by simp
next
  case (Cons name names)
  show ?case
  proof (cases "os_Lstat w (p @ [name])")
    case (Inl err)
    with Cons show ?thesis
      by (simp add: rewriteFn_err)
  next
    case (Inr fileInfo)
    then have ex: "lookup w (p @ [name]) \<noteq> None"
      by (auto simp: os_Lstat_def os_Stat_def split: option.splits)
    have "walk n (rewriteFn old new) w (p @ [name]) fileInfo \<noteq> None"
      using Cons.prems ex by (intro IH) auto
    then obtain w1 r1 where res: "walk n (rewriteFn old new) w (p @ [name]) fileInfo = Some (w1, r1)"
      by auto
    then have "sameShape w w1" by (rule walk_shape)
    then have "\<forall>q. lookup w1 q \<noteq> None \<longrightarrow> length q \<le> n + length p"
      using Cons.prems by (simp add: sameShape_None)
    then have "walkNames n (rewriteFn old new) w1 p names \<noteq> None"
      by (rule Cons.IH)
    with Inr res show ?thesis
      by (cases r1) auto
  qed
qed

lemma walk_returns:
  "(\<forall>q. lookup w q \<noteq> None \<longrightarrow> length q < n + length p) \<Longrightarrow> lookup w p \<noteq> None \<Longrightarrow>
   walk n (rewriteFn old new) w p info \<noteq> None"
proof (induction n arbitrary: w p info)
  case 0
  then show ?case by auto
next
  case (Suc n)
  show ?case
  proof (cases "fi_isDir info")
    case False
    then show ?thesis by simp
  next
    case True
    show ?thesis
    proof (cases "readDirNames w p")
      case (Inl err)
      with True show ?thesis by simp
    next
      case (Inr names)
      obtain w1 r1 where f: "rewriteFn old new w p (Some info) None = (w1, r1)"
        by (cases "rewriteFn old new w p (Some info) None")
      have s1: "sameShape w w1" using f by (rule rewriteFn_shape)
      have "\<forall>q. lookup w1 q \<noteq> None \<longrightarrow> length q \<le> n + length p"
        using Suc.prems s1 by (auto simp: sameShape_None less_Suc_eq_le)
      then have "walkNames n (rewriteFn old new) w1 p names \<noteq> None"
        using walkNames_returns Suc.IH by blast
      with True Inr f show ?thesis
        by (cases r1) auto
    qed
  qed
qed

lemma replaceModuleInFiles_returns: "replaceModuleInFiles w dir old new \<noteq> None"
proof (cases "os_Lstat w dir")
  case (Inl err)
  then show ?thesis by (simp add: replaceModuleInFiles_def Walk_def)
next
  case (Inr info)
  then have ex: "lookup w dir \<noteq> None"
    by (auto simp: os_Lstat_def os_Stat_def split: option.splits)
  have "\<forall>q. lookup w q \<noteq> None \<longrightarrow> length q < Suc (depth w) + length dir"
    using depth_ge by (auto simp: less_Suc_eq_le intro: trans_le_add1)
  then have "walk (Suc (depth w)) (rewriteFn old new) w dir info \<noteq> None"
    using ex by (rule walk_returns)
  with Inr show ?thesis by (simp add: replaceModuleInFiles_def Walk_def)
qed

lemma wellFormed_iff:
  "wellFormed w \<longleftrightarrow> (\<forall>q. lookup w q \<noteq> None \<longrightarrow> q = [] \<or> isDirNode (lookup w (butlast q)))"
  by (auto simp: wellFormed_def list_all_iff lookup_None_iff paths_def)

lemma isDirNode_shape: "sameShape w w' \<Longrightarrow> isDirNode (lookup w' q) = isDirNode (lookup w q)"
proof -
  assume "sameShape w w'"
  then have "shapeOf (lookup w' q) = shapeOf (lookup w q)"
    by (simp add: sameShape_def)
  then show ?thesis
    by (cases "lookup w' q"; cases "lookup w q") (auto simp: shapeOf_def isDirNode_def)
qed

lemma wellFormed_shape: "sameShape w w' \<Longrightarrow> wellFormed w \<Longrightarrow> wellFormed w'"
  by (simp add: wellFormed_iff sameShape_None isDirNode_shape)

lemma isDirNode_Some: "isDirNode v \<Longrightarrow> v \<noteq> None"
  by (auto simp: isDirNode_def split: option.splits)

lemma wellFormed_above:
  "wellFormed w \<Longrightarrow> lookup w (p @ s) \<noteq> None \<Longrightarrow> s \<noteq> [] \<Longrightarrow> isDirNode (lookup w p)"
proof (induction s rule: rev_induct)
  case Nil
  then show ?case by simp
next
  case (snoc x s)
  from snoc.prems have d: "isDirNode (lookup w (p @ s))"
    by (auto simp: wellFormed_iff butlast_append dest!: spec [of _ "p @ s @ [x]"])
  show ?case
  proof (cases "s = []")
    case True
    with d show ?thesis by simp
  next
    case False
    with d snoc show ?thesis
      by (auto dest: isDirNode_Some)
  qed
qed

lemma rewrote_empty: "rewrote old new w w {}"
  by (simp add: rewrote_def)

lemma rewritesAt_cong: "lookup w1 q = lookup w q \<Longrightarrow> rewritesAt old new w1 q = rewritesAt old new w q"
  by (simp add: rewritesAt_def)

lemma rewrote_comp:
  assumes 1: "rewrote old new w w1 S1" and 2: "rewrote old new w1 w2 S2" and d: "S1 \<inter> S2 = {}"
  shows "rewrote old new w w2 (S1 \<union> S2)"
proof -
  from 1 obtain ws1 where l1: "\<And>q. lookup w1 q = (if q \<in> S1 then map_option (rewriteNode old new q) (lookup w q)
                         else lookup w q)"
    and w1: "writes w1 = writes w @ ws1" "distinct ws1" "set ws1 = {q \<in> S1. rewritesAt old new w q}"
    unfolding rewrote_def by blast
  from 2 obtain ws2 where l2: "\<And>q. lookup w2 q = (if q \<in> S2 then map_option (rewriteNode old new q) (lookup w1 q)
                         else lookup w1 q)"
    and w2: "writes w2 = writes w1 @ ws2" "distinct ws2" "set ws2 = {q \<in> S2. rewritesAt old new w1 q}"
    unfolding rewrote_def by blast
  have same: "lookup w1 q = lookup w q" if "q \<in> S2" for q
    using that d l1 [of q] by auto
  have "rewritesAt old new w1 q = rewritesAt old new w q" if "q \<in> S2" for q
    using same [OF that] by (rule rewritesAt_cong)
  with w2(3) have s2: "set ws2 = {q \<in> S2. rewritesAt old new w q}"
    by blast
  have a: "\<forall>q. lookup w2 q = (if q \<in> S1 \<union> S2 then map_option (rewriteNode old new q) (lookup w q)
                         else lookup w q)"
    using l1 l2 d by auto
  have b: "writes w2 = writes w @ (ws1 @ ws2)"
    using w1 w2 by simp
  have c: "distinct (ws1 @ ws2)"
    using w1 w2 s2 d by auto
  have e: "set (ws1 @ ws2) = {q \<in> S1 \<union> S2. rewritesAt old new w q}"
    using w1 s2 by auto
  show ?thesis
    unfolding rewrote_def using a b c e by blast
qed

lemma rewriteNode_notFile: "\<not> isFileNode (Some v) \<Longrightarrow> rewriteNode old new q v = v"
  by (cases v) (auto simp: rewriteNode_def isFileNode_def)

lemma rewritesAt_notFile: "\<not> isFileNode (lookup w q) \<Longrightarrow> \<not> rewritesAt old new w q"
  by (auto simp: rewritesAt_def isFileNode_def split: option.splits node.splits)

lemma rewrote_extend:
  assumes 1: "rewrote old new w w' S" and sub: "S \<subseteq> S'"
    and nf: "\<And>q. q \<in> S' \<Longrightarrow> q \<notin> S \<Longrightarrow> \<not> isFileNode (lookup w q)"
  shows "rewrote old new w w' S'"
proof -
  from 1 obtain ws where l1: "\<And>q. lookup w' q = (if q \<in> S then map_option (rewriteNode old new q) (lookup w q)
                         else lookup w q)"
    and w1: "writes w' = writes w @ ws" "distinct ws" "set ws = {q \<in> S. rewritesAt old new w q}"
    unfolding rewrote_def by blast
  have a: "lookup w' q = (if q \<in> S' then map_option (rewriteNode old new q) (lookup w q)
                         else lookup w q)" for q
  proof (cases "q \<in> S' \<and> q \<notin> S")
    case True
    then have "\<not> isFileNode (lookup w q)" using nf by blast
    then have "map_option (rewriteNode old new q) (lookup w q) = lookup w q"
      by (cases "lookup w q") (auto simp: rewriteNode_notFile)
    with True l1 [of q] show ?thesis by simp
  next
    case False
    with sub l1 [of q] show ?thesis by auto
  qed
  have e: "set ws = {q \<in> S'. rewritesAt old new w q}"
    using w1(3) sub nf rewritesAt_notFile by blast
  show ?thesis
    unfolding rewrote_def using a w1 e by blast
qed

lemma below_disjoint: "name \<noteq> name' \<Longrightarrow> below (p @ [name]) \<inter> below (p @ [name']) = {}"
  by (auto simp: below_def prefix_def append_eq_append_conv2 Cons_eq_append_conv)

lemma isFile_below:
  assumes wf: "wellFormed w" and f: "isFileNode (lookup w p)" and q: "q \<in> below p" "q \<noteq> p"
  shows "lookup w q = None"
proof (rule ccontr)
  assume ne: "lookup w q \<noteq> None"
  from q obtain s where s: "q = p @ s" "s \<noteq> []"
    by (auto simp: below_def prefix_def)
  with wf ne have "isDirNode (lookup w p)"
    using wellFormed_above by blast
  with f show False
    by (auto simp: isDirNode_def isFileNode_def split: option.splits node.splits)
qed

lemma walk_file_rewrote:
  assumes wf: "wellFormed w" and v: "lookup w p = Some (File m c)"
    and r: "rewriteFn old new w p (Some (infoOf p (File m c))) None = (w', None)"
  shows "rewrote old new w w' (below p)"
proof -
  have isf: "isFileNode (lookup w p)" using v by (simp add: isFileNode_def)
  have none: "lookup w q = None" if "q \<in> below p" "q \<noteq> p" for q
    using isFile_below [OF wf isf that] .
  have pin: "p \<in> below p" by (simp add: below_def)
  show ?thesis
  proof (cases "rewritesAt old new w p")
    case True
    with r v have w': "w' = (put w p (rewriteNode old new p (File m c)))\<lparr>writes := writes w @ [p]\<rparr>"
      by (simp add: rewriteFn_info)
    have a: "lookup w' q = (if q \<in> below p then map_option (rewriteNode old new q) (lookup w q)
                         else lookup w q)" for q
      using none [of q] pin v by (auto simp: w' lookup_writes_upd lookup_put)
    have "q = p" if "q \<in> below p" "rewritesAt old new w q" for q
    proof (rule ccontr)
      assume "q \<noteq> p"
      with that(1) have "lookup w q = None" by (rule none)
      with that(2) show False by (simp add: rewritesAt_def)
    qed
    with True pin have e: "{q \<in> below p. rewritesAt old new w q} = {p}"
      by blast
    have "writes w' = writes w @ [p] \<and> distinct [p] \<and> set [p] = {q \<in> below p. rewritesAt old new w q}"
      using e by (simp add: w')
    with a show ?thesis
      unfolding rewrote_def by blast
  next
    case False
    with r v have w': "w' = w"
      by (simp add: rewriteFn_info)
    have same: "rewriteNode old new p (File m c) = File m c"
      using False v by (auto simp: rewritesAt_def rewriteNode_def)
    have a: "lookup w' q = (if q \<in> below p then map_option (rewriteNode old new q) (lookup w q)
                         else lookup w q)" for q
      using none [of q] v same by (cases "q = p") (auto simp: w')
    have "q = p" if "q \<in> below p" "rewritesAt old new w q" for q
    proof (rule ccontr)
      assume "q \<noteq> p"
      with that(1) have "lookup w q = None" by (rule none)
      with that(2) show False by (simp add: rewritesAt_def)
    qed
    with False have e: "{q \<in> below p. rewritesAt old new w q} = {}"
      by blast
    have "writes w' = writes w @ [] \<and> distinct ([]::path list) \<and> set [] = {q \<in> below p. rewritesAt old new w q}"
      using e by (simp add: w')
    with a show ?thesis
      unfolding rewrote_def by blast
  qed
qed

lemma os_Lstat_Inr: "os_Lstat w p = Inr info \<Longrightarrow> \<exists>v. lookup w p = Some v \<and> info = infoOf p v"
  by (auto simp: os_Lstat_def os_Stat_def split: option.splits)

lemma walkNames_rewrote:
  assumes IH: "\<And>w p v w'. wellFormed w \<Longrightarrow> lookup w p = Some v \<Longrightarrow>
      walk n (rewriteFn old new) w p (infoOf p v) = Some (w', None) \<Longrightarrow> rewrote old new w w' (below p)"
  shows "wellFormed w \<Longrightarrow> distinct names \<Longrightarrow>
     walkNames n (rewriteFn old new) w p names = Some (w', None) \<Longrightarrow>
     rewrote old new w w' (\<Union>name \<in> set names. below (p @ [name]))"
proof (induction names arbitrary: w)
  case Nil
  then show ?case by (simp add: rewrote_empty)
next
  case (Cons name names)
  show ?case
  proof (cases "os_Lstat w (p @ [name])")
    case (Inl err)
    with Cons.prems show ?thesis
      by (simp add: rewriteFn_err)
  next
    case (Inr fileInfo)
    then obtain v where v: "lookup w (p @ [name]) = Some v" "fileInfo = infoOf (p @ [name]) v"
      using os_Lstat_Inr by blast
    from Inr Cons.prems(3) obtain w1 where
      1: "walk n (rewriteFn old new) w (p @ [name]) fileInfo = Some (w1, None)"
      and 2: "walkNames n (rewriteFn old new) w1 p names = Some (w', None)"
      by (auto split: option.splits)
    have r1: "rewrote old new w w1 (below (p @ [name]))"
      using IH [OF Cons.prems(1) v(1)] 1 v(2) by simp
    have wf1: "wellFormed w1"
      using walk_shape [OF 1] Cons.prems(1) by (rule wellFormed_shape)
    have r2: "rewrote old new w1 w' (\<Union>name \<in> set names. below (p @ [name]))"
      using Cons.IH [OF wf1 _ 2] Cons.prems(2) by simp
    have "below (p @ [name]) \<inter> below (p @ [x]) = {}" if "x \<in> set names" for x
      using that Cons.prems(2) by (intro below_disjoint) auto
    then have d: "below (p @ [name]) \<inter> (\<Union>name \<in> set names. below (p @ [name])) = {}"
      by blast
    have "rewrote old new w w' (below (p @ [name]) \<union> (\<Union>name \<in> set names. below (p @ [name])))"
      using r1 r2 d by (rule rewrote_comp)
    then show ?thesis by simp
  qed
qed

lemma walk_rewrote:
  "wellFormed w \<Longrightarrow> lookup w p = Some v \<Longrightarrow>
   walk n (rewriteFn old new) w p (infoOf p v) = Some (w', None) \<Longrightarrow> rewrote old new w w' (below p)"
proof (induction n arbitrary: w p v w')
  case 0
  then show ?case by simp
next
  case (Suc n)
  show ?case
  proof (cases v)
    case (File m c)
    with Suc.prems have "rewriteFn old new w p (Some (infoOf p (File m c))) None = (w', None)"
      by (simp add: infoOf_def isDirNode_def)
    with Suc.prems File show ?thesis
      using walk_file_rewrote by blast
  next
    case (Dir m)
    then have isd: "fi_isDir (infoOf p v)" by (simp add: infoOf_def isDirNode_def)
    have rd: "readDirNames w p = Inr (children w p)"
      using Suc.prems(2) Dir by (simp add: readDirNames_def)
    have fn: "rewriteFn old new w p (Some (infoOf p v)) None = (w, None)"
      using Suc.prems(2) Dir by (simp add: rewriteFn_info rewritesAt_def)
    from Suc.prems(3) isd rd fn
    have wn: "walkNames n (rewriteFn old new) w p (children w p) = Some (w', None)"
      by simp
    have r: "rewrote old new w w' (\<Union>name \<in> set (children w p). below (p @ [name]))"
    proof (rule walkNames_rewrote)
      show "\<And>w p v w'. wellFormed w \<Longrightarrow> lookup w p = Some v \<Longrightarrow>
        walk n (rewriteFn old new) w p (infoOf p v) = Some (w', None) \<Longrightarrow>
        rewrote old new w w' (below p)"
        by (rule Suc.IH)
      show "wellFormed w" by (rule Suc.prems(1))
      show "distinct (children w p)" by (rule children_distinct)
      show "walkNames n (rewriteFn old new) w p (children w p) = Some (w', None)" by (rule wn)
    qed
    show ?thesis
    proof (rule rewrote_extend [OF r])
      show "(\<Union>name \<in> set (children w p). below (p @ [name])) \<subseteq> below p"
        by (auto simp: below_def prefix_def)
    next
      fix q assume q: "q \<in> below p" "q \<notin> (\<Union>name \<in> set (children w p). below (p @ [name]))"
      show "\<not> isFileNode (lookup w q)"
      proof (cases "q = p")
        case True
        with Suc.prems(2) Dir show ?thesis by (simp add: isFileNode_def)
      next
        case False
        with q(1) obtain zs where zs: "q = p @ zs" "zs \<noteq> []"
          by (auto simp: below_def prefix_def)
        then obtain x s where s: "q = (p @ [x]) @ s"
          by (cases zs) auto
        with q(2) have "x \<notin> set (children w p)"
          by (auto simp: below_def)
        then have nx: "lookup w (p @ [x]) = None"
          by (simp add: children_set)
        have "lookup w q = None"
        proof (rule ccontr)
          assume "lookup w q \<noteq> None"
          with nx s have "s \<noteq> []" by auto
          with \<open>lookup w q \<noteq> None\<close> s Suc.prems(1) have "isDirNode (lookup w (p @ [x]))"
            using wellFormed_above by blast
          with nx show False by (simp add: isDirNode_def)
        qed
        then show ?thesis by (simp add: isFileNode_def)
      qed
    qed
  qed
qed

lemma replaceModuleInFiles_rewrote:
  assumes wf: "wellFormed w" and ok: "replaceModuleInFiles w dir old new = Some (w', None)"
  shows "rewrote old new w w' (below dir)"
proof (cases "os_Lstat w dir")
  case (Inl err)
  with ok show ?thesis
    by (simp add: replaceModuleInFiles_def Walk_def rewriteFn_err)
next
  case (Inr info)
  then obtain v where v: "lookup w dir = Some v" "info = infoOf dir v"
    using os_Lstat_Inr by blast
  with Inr ok have "walk (Suc (depth w)) (rewriteFn old new) w dir (infoOf dir v) = Some (w', None)"
    by (simp add: replaceModuleInFiles_def Walk_def)
  with wf v(1) show ?thesis
    by (rule walk_rewrote)
qed

declare replaceScan.simps [simp del] runes.simps [simp del] RuneCountInString.simps [simp del]
  countLoop.simps [simp del]

lemma concat_runes: "concat (runes s) = s"
proof (induction s rule: runes.induct)
  case (1 s)
  then show ?case
    by (subst runes.simps) auto
qed

lemma RuneCount_runes: "RuneCountInString s = length (runes s)"
proof (induction s rule: runes.induct)
  case (1 s)
  then show ?case
    by (subst runes.simps, subst RuneCountInString.simps) auto
qed

lemma replaceLoop_empty:
  "replaceLoop [] new (length (runes s)) False s = concat (map (\<lambda>r. r @ new) (runes s))"
proof (induction s rule: runes.induct)
  case (1 s)
  show ?case
  proof (cases "s = []")
    case True
    then show ?thesis by (simp add: runes.simps)
  next
    case False
    then have r: "runes s = take (runeWidth s) s # runes (drop (runeWidth s) s)"
      by (subst runes.simps) simp
    show ?thesis
      using 1 [OF False] by (simp add: r Let_def)
  qed
qed

lemma ReplaceAll_empty: "ReplaceAll s [] new = new @ concat (map (\<lambda>r. r @ new) (runes s))"
proof (cases "new = []")
  case True
  then show ?thesis by (simp add: ReplaceAll_def concat_runes)
next
  case False
  then show ?thesis
    by (simp add: ReplaceAll_def Count_def RuneCount_runes replaceLoop_empty Let_def)
qed

lemma Index_None_scan: "Index s old = None \<Longrightarrow> replaceScan old new s = s"
proof (induction s)
  case Nil
  then show ?case by (simp add: replaceScan.simps)
next
  case (Cons c cs)
  then have "\<not> prefix old (c # cs)" "Index cs old = None"
    by (auto simp: HasPrefix_iff split: if_splits)
  with Cons.IH show ?case
    by (subst replaceScan.simps) simp
qed

lemma Index_Some_scan:
  "Index s old = Some i \<Longrightarrow> old \<noteq> [] \<Longrightarrow>
   replaceScan old new s = take i s @ new @ replaceScan old new (drop (i + length old) s)"
proof (induction s arbitrary: i)
  case Nil
  then show ?case by simp
next
  case (Cons c cs)
  show ?case
  proof (cases "prefix old (c # cs)")
    case True
    with Cons.prems have "i = 0" by (simp add: HasPrefix_iff)
    with True Cons.prems show ?thesis
      by (subst replaceScan.simps) simp
  next
    case False
    with Cons.prems obtain j where j: "Index cs old = Some j" "i = Suc j"
      by (auto simp: HasPrefix_iff)
    from Cons.IH [OF j(1) Cons.prems(2)] False j(2) Cons.prems(2) show ?thesis
      by (subst replaceScan.simps) simp
  qed
qed

lemma replaceLoop_scan:
  "old \<noteq> [] \<Longrightarrow> countLoop s old = k \<Longrightarrow> replaceLoop old new k first s = replaceScan old new s"
proof (induction k arbitrary: s first)
  case 0
  then have "Index s old = None"
    by (subst (asm) countLoop.simps) (auto split: option.splits)
  then show ?case by (simp add: Index_None_scan)
next
  case (Suc k)
  from Suc.prems obtain i where i: "Index s old = Some i"
    and c: "countLoop (drop (i + length old) s) old = k"
    by (subst (asm) countLoop.simps) (auto split: option.splits)
  show ?case
    using Suc.IH [OF Suc.prems(1) c] Suc.prems(1) i by (simp add: Index_Some_scan)
qed

lemma replaceScan_same: "replaceScan old old s = s"
proof (induction "length s" arbitrary: s rule: less_induct)
  case less
  show ?case
  proof (cases "old = [] \<or> s = []")
    case True
    then show ?thesis by (subst replaceScan.simps) simp
  next
    case False
    show ?thesis
    proof (cases "prefix old s")
      case True
      have "replaceScan old old (drop (length old) s) = drop (length old) s"
        using False by (intro less) simp
      with False True have "replaceScan old old s = old @ drop (length old) s"
        by (subst replaceScan.simps) simp
      with True show ?thesis
        by (metis append_eq_conv_conj prefix_def)
    next
      case no: False
      have "replaceScan old old (tl s) = tl s"
        using False by (intro less) simp
      with False no show ?thesis
        by (subst replaceScan.simps) simp
    qed
  qed
qed

lemma ReplaceAll_spec: "ReplaceAll s old new = replaceEverySpec old new s"
proof (cases "old = []")
  case True
  then show ?thesis by (simp add: replaceEverySpec_def ReplaceAll_empty)
next
  case False
  show ?thesis
  proof (cases "old = new")
    case True
    with False show ?thesis
      by (simp add: replaceEverySpec_def ReplaceAll_def replaceScan_same)
  next
    case ne: False
    show ?thesis
    proof (cases "countLoop s old = 0")
      case True
      then have "replaceLoop old new 0 True s = replaceScan old new s"
        using False by (intro replaceLoop_scan) auto
      with True False ne show ?thesis
        by (simp add: replaceEverySpec_def ReplaceAll_def Count_def)
    next
      case pos: False
      with False ne show ?thesis
        by (simp add: replaceEverySpec_def ReplaceAll_def Count_def Let_def replaceLoop_scan)
    qed
  qed
qed

lemma Index_None_iff: "Index s old = None \<longleftrightarrow> \<not> occursIn old s"
proof (induction s)
  case Nil
  then show ?case by (auto simp: occursIn_def)
next
  case (Cons c cs)
  show ?case
  proof (cases "prefix old (c # cs)")
    case True
    then have "occursIn old (c # cs)"
      by (auto simp: occursIn_def prefix_def intro: exI [of _ "[]"])
    with True show ?thesis by (simp add: HasPrefix_iff)
  next
    case False
    have "occursIn old (c # cs) \<longleftrightarrow> occursIn old cs"
    proof
      assume "occursIn old (c # cs)"
      then obtain pre post where e: "c # cs = pre @ old @ post" by (auto simp: occursIn_def)
      with False have "pre \<noteq> []" by (auto simp: prefix_def)
      with e obtain pre' where "pre = c # pre'" "cs = pre' @ old @ post"
        by (cases pre) auto
      then show "occursIn old cs" by (auto simp: occursIn_def)
    next
      assume "occursIn old cs"
      then obtain pre post where "cs = pre @ old @ post" by (auto simp: occursIn_def)
      then have "c # cs = (c # pre) @ old @ post" by simp
      then show "occursIn old (c # cs)" unfolding occursIn_def by blast
    qed
    with False Cons.IH show ?thesis by (simp add: HasPrefix_iff)
  qed
qed

lemma ReplaceAll_absent: "\<not> occursIn old s \<Longrightarrow> ReplaceAll s old new = s"
proof -
  assume "\<not> occursIn old s"
  then have i: "Index s old = None" by (simp add: Index_None_iff)
  then have "old \<noteq> []" by (cases s) (auto simp: HasPrefix_def)
  with i show ?thesis
    by (simp add: ReplaceAll_spec replaceEverySpec_def Index_None_scan)
qed

lemma os_Lstat_Some: "lookup w p = Some v \<Longrightarrow> os_Lstat w p = Inr (infoOf p v)"
  by (simp add: os_Lstat_def os_Stat_def)

lemma below_trans: "q \<in> below (p @ [x]) \<Longrightarrow> q \<in> below p"
  by (auto simp: below_def prefix_def)

lemma walkNames_noop:
  assumes IH: "\<And>p v. (\<forall>q \<in> below p. \<not> rewritesAt old new w q) \<Longrightarrow> lookup w p = Some v \<Longrightarrow>
      (\<forall>q. lookup w q \<noteq> None \<longrightarrow> length q < n + length p) \<Longrightarrow>
      walk n (rewriteFn old new) w p (infoOf p v) = Some (w, None)"
    and no: "\<forall>q \<in> below p. \<not> rewritesAt old new w q"
    and fuel: "\<forall>q. lookup w q \<noteq> None \<longrightarrow> length q \<le> n + length p"
  shows "\<forall>x \<in> set names. lookup w (p @ [x]) \<noteq> None \<Longrightarrow>
     walkNames n (rewriteFn old new) w p names = Some (w, None)"
proof (induction names)
  case Nil
  then show ?case by simp
next
  case (Cons name names)
  then obtain v where v: "lookup w (p @ [name]) = Some v" by auto
  have "walk n (rewriteFn old new) w (p @ [name]) (infoOf (p @ [name]) v) = Some (w, None)"
  proof (rule IH)
    show "\<forall>q \<in> below (p @ [name]). \<not> rewritesAt old new w q"
      using no below_trans by blast
    show "lookup w (p @ [name]) = Some v" by (rule v)
    show "\<forall>q. lookup w q \<noteq> None \<longrightarrow> length q < n + length (p @ [name])"
      using fuel by (auto simp: less_Suc_eq_le)
  qed
  with Cons v show ?case
    by (simp add: os_Lstat_Some)
qed

lemma walk_noop:
  "(\<forall>q \<in> below p. \<not> rewritesAt old new w q) \<Longrightarrow> lookup w p = Some v \<Longrightarrow>
   (\<forall>q. lookup w q \<noteq> None \<longrightarrow> length q < n + length p) \<Longrightarrow>
   walk n (rewriteFn old new) w p (infoOf p v) = Some (w, None)"
proof (induction n arbitrary: p v)
  case 0
  then show ?case by auto
next
  case (Suc n)
  have pin: "p \<in> below p" by (simp add: below_def)
  with Suc.prems(1) have np: "\<not> rewritesAt old new w p" by blast
  have fn: "rewriteFn old new w p (Some (infoOf p v)) None = (w, None)"
    using Suc.prems(2) np by (simp add: rewriteFn_info)
  show ?case
  proof (cases v)
    case (File m c)
    with fn show ?thesis
      by (simp add: infoOf_def isDirNode_def)
  next
    case (Dir m)
    then have isd: "fi_isDir (infoOf p v)" by (simp add: infoOf_def isDirNode_def)
    have rd: "readDirNames w p = Inr (children w p)"
      using Suc.prems(2) Dir by (simp add: readDirNames_def)
    have "walkNames n (rewriteFn old new) w p (children w p) = Some (w, None)"
    proof (rule walkNames_noop)
      show "\<And>p v. (\<forall>q \<in> below p. \<not> rewritesAt old new w q) \<Longrightarrow> lookup w p = Some v \<Longrightarrow>
        (\<forall>q. lookup w q \<noteq> None \<longrightarrow> length q < n + length p) \<Longrightarrow>
        walk n (rewriteFn old new) w p (infoOf p v) = Some (w, None)"
        by (rule Suc.IH)
      show "\<forall>q \<in> below p. \<not> rewritesAt old new w q" by (rule Suc.prems(1))
      show "\<forall>q. lookup w q \<noteq> None \<longrightarrow> length q \<le> n + length p"
        using Suc.prems(3) by (auto simp: less_Suc_eq_le)
      show "\<forall>x \<in> set (children w p). lookup w (p @ [x]) \<noteq> None"
        by (simp add: children_set)
    qed
    with isd rd fn show ?thesis by simp
  qed
qed

lemma replaceModuleInFiles_noop:
  assumes no: "\<forall>q \<in> below dir. \<not> rewritesAt old new w q" and ex: "lookup w dir \<noteq> None"
  shows "replaceModuleInFiles w dir old new = Some (w, None)"
proof -
  from ex obtain v where v: "lookup w dir = Some v" by auto
  have "\<forall>q. lookup w q \<noteq> None \<longrightarrow> length q < Suc (depth w) + length dir"
    using depth_ge by (auto simp: less_Suc_eq_le intro: trans_le_add1)
  with no v have "walk (Suc (depth w)) (rewriteFn old new) w dir (infoOf dir v) = Some (w, None)"
    by (rule walk_noop)
  with v show ?thesis
    by (simp add: replaceModuleInFiles_def Walk_def os_Lstat_Some)
qed

lemma replaceModuleInFiles_ok_exists:
  "replaceModuleInFiles w dir old new = Some (w', None) \<Longrightarrow> lookup w dir \<noteq> None"
  by (auto simp: replaceModuleInFiles_def Walk_def rewriteFn_err os_Lstat_def os_Stat_def
      split: sum.splits option.splits)

lemma goName_iff: "goName n \<longleftrightarrow> suffix ''.go'' n \<or> n = ''go.mod''"
  by (auto simp: goName_def HasSuffix_iff)

lemma rewritesAt_iff:
  "rewritesAt old new w q \<longleftrightarrow>
     (\<exists>m c. lookup w q = Some (File m c) \<and> (suffix ''.go'' (base q) \<or> base q = ''go.mod'') \<and>
        replaceEverySpec old new c \<noteq> c)"
proof (cases "lookup w q")
  case None
  then show ?thesis by (simp add: rewritesAt_def)
next
  case (Some v)
  then show ?thesis
    by (cases v) (simp_all add: rewritesAt_def goName_iff ReplaceAll_spec)
qed


section \<open>Claims about the Path Classifier and the Dependency Selector\<close>

text \<open>
  C3.  A package identifier \<open>p\<close> is in-module exactly when the module identifier \<open>m\<close>
  is a literal prefix of it, with no regard for path boundaries (module
  \<open>github.com/x/foo\<close> also matches \<open>github.com/x/foobar\<close>).  For an in-module
  identifier \<open>p = m @ r\<close> the relative path is \<open>r\<close> with one leading \<open>/\<close> removed if
  there is one, and \<open>p = m\<close> gives the empty relative path.
\<close>

theorem C3_dependency_selector:
  "(inModule p m \<longleftrightarrow> (\<exists>r. p = m @ r))
   \<and> inModule ''github.com/x/foobar'' ''github.com/x/foo''
   \<and> relPathOf (m @ r) m = (case r of [] \<Rightarrow> [] | c # cs \<Rightarrow> if c = CHR ''/'' then cs else r)
   \<and> relPathOf m m = []"
proof -
  have a: "inModule p m \<longleftrightarrow> (\<exists>r. p = m @ r)"
    by (simp add: inModule_def HasPrefix_iff prefix_def)
  have b: "inModule ''github.com/x/foobar'' ''github.com/x/foo''"
    by (simp add: inModule_def HasPrefix_def)
  have c: "relPathOf (m @ r) m = (case r of [] \<Rightarrow> [] | c # cs \<Rightarrow> if c = CHR ''/'' then cs else r)"
    by (cases r) (simp_all add: relPathOf_def TrimPrefix_append, simp_all add: TrimPrefix_def HasPrefix_def)
  have d: "relPathOf m m = []"
    using TrimPrefix_append [of m "[]"] by (simp add: relPathOf_def TrimPrefix_def HasPrefix_def)
  from a b c d show ?thesis by blast
qed

theorem C3_dependency_selector_witness:
  "inModule ''github.com/x/foo/bar/baz'' ''github.com/x/foo''
   \<and> relPathOf ''github.com/x/foo/bar/baz'' ''github.com/x/foo'' = ''bar/baz''
   \<and> relPathOf ''github.com/x/foobar'' ''github.com/x/foo'' = ''bar''
   \<and> relPathOf ''github.com/x/foo'' ''github.com/x/foo'' = []"
  using C3_dependency_selector [of "''github.com/x/foo/bar/baz''" "''github.com/x/foo''" "''/bar/baz''"]
    C3_dependency_selector [of "''github.com/x/foobar''" "''github.com/x/foo''" "''bar''"]
  by simp

text \<open>
  C4.  For every name, the empty one included, \<open>shouldSkipDir\<close> is true exactly when
  the name equals or ends with one of \<open>testdata\<close>, \<open>vendor\<close>, \<open>.git\<close>, \<open>_test\<close>;
  \<open>foo_test\<close> is skipped, and \<open>utils\<close>, \<open>src\<close>, \<open>internal\<close> and \<open>protest\<close> are not.
\<close>

theorem C4_shouldSkipDir:
  "(shouldSkipDir name \<longleftrightarrow>
      (name = ''testdata'' \<or> suffix ''testdata'' name) \<or>
      (name = ''vendor'' \<or> suffix ''vendor'' name) \<or>
      (name = ''.git'' \<or> suffix ''.git'' name) \<or>
      (name = ''_test'' \<or> suffix ''_test'' name))
   \<and> \<not> shouldSkipDir []
   \<and> shouldSkipDir ''foo_test''
   \<and> \<not> shouldSkipDir ''utils'' \<and> \<not> shouldSkipDir ''src''
   \<and> \<not> shouldSkipDir ''internal'' \<and> \<not> shouldSkipDir ''protest''"
proof -
  have a: "shouldSkipDir name \<longleftrightarrow>
      (name = ''testdata'' \<or> suffix ''testdata'' name) \<or>
      (name = ''vendor'' \<or> suffix ''vendor'' name) \<or>
      (name = ''.git'' \<or> suffix ''.git'' name) \<or>
      (name = ''_test'' \<or> suffix ''_test'' name)"
    unfolding shouldSkipDir_def skip_def skipLoop.simps HasSuffix_iff by auto
  have b: "\<not> shouldSkipDir []" "shouldSkipDir ''foo_test''"
    "\<not> shouldSkipDir ''utils''" "\<not> shouldSkipDir ''src''"
    "\<not> shouldSkipDir ''internal''" "\<not> shouldSkipDir ''protest''"
    by (simp_all add: shouldSkipDir_def skip_def HasSuffix_def)
  from a b show ?thesis by blast
qed

theorem C4_shouldSkipDir_witness:
  "shouldSkipDir ''vendor'' \<and> shouldSkipDir ''my.git'' \<and> \<not> shouldSkipDir ''tests''"
  using C4_shouldSkipDir [of "''vendor''"] C4_shouldSkipDir [of "''my.git''"]
    C4_shouldSkipDir [of "''tests''"]
  by (simp add: suffix_def)

text \<open>
  C5.  For every name, the empty one included, \<open>shouldCopyFile\<close> is true exactly when
  the name ends in \<open>.go\<close> and not in \<open>_test.go\<close>, or is one of \<open>go.mod\<close>,
  \<open>go.sum\<close>, \<open>LICENSE\<close>, \<open>README.md\<close>; every other name gives false.
\<close>

theorem C5_shouldCopyFile:
  "(shouldCopyFile name \<longleftrightarrow>
      (suffix ''.go'' name \<and> \<not> suffix ''_test.go'' name) \<or>
      name = ''go.mod'' \<or> name = ''go.sum'' \<or> name = ''LICENSE'' \<or> name = ''README.md'')
   \<and> \<not> shouldCopyFile []"
proof -
  have imp: "importantLoop name important \<longleftrightarrow>
      name = ''go.mod'' \<or> name = ''go.sum'' \<or> name = ''LICENSE'' \<or> name = ''README.md''"
    by (simp add: importantLoop_iff important_def)
  have nogo: "\<not> suffix ''.go'' name" if "importantLoop name important"
    using that unfolding imp by (auto simp: suffix_def)
  have a: "shouldCopyFile name \<longleftrightarrow>
      (suffix ''.go'' name \<and> \<not> suffix ''_test.go'' name) \<or>
      name = ''go.mod'' \<or> name = ''go.sum'' \<or> name = ''LICENSE'' \<or> name = ''README.md''"
    using nogo imp by (auto simp: shouldCopyFile_def HasSuffix_iff)
  have b: "\<not> shouldCopyFile []"
    by (simp add: shouldCopyFile_def HasSuffix_def important_def)
  from a b show ?thesis by blast
qed

theorem C5_shouldCopyFile_witness:
  "shouldCopyFile ''main.go'' \<and> \<not> shouldCopyFile ''main_test.go''
   \<and> shouldCopyFile ''LICENSE'' \<and> \<not> shouldCopyFile ''notes.txt''"
  using C5_shouldCopyFile [of "''main.go''"] C5_shouldCopyFile [of "''main_test.go''"]
    C5_shouldCopyFile [of "''LICENSE''"] C5_shouldCopyFile [of "''notes.txt''"]
  by (simp add: suffix_def)

section \<open>Example stores\<close>

text \<open>
  The tree of the repository's test of \<^verbatim>\<open>replaceModuleInFiles\<close> (a \<open>go.mod\<close>, a Go
  file and a text file that all mention the module) with one more directory, and the
  same tree after the rewrite; then a module whose new name extends the old one, before
  the rewrite, after one run and after two.
\<close>

definition exTree :: world where
  "exTree =
     \<lparr>files =
        [([], Dir 493),
         ([''out''], Dir 493),
         ([''out'', ''go.mod''], File 420 ''module github.com/openai/openai-go/v3''),
         ([''out'', ''main.go''], File 420 ''import github.com/openai/openai-go/v3/responses''),
         ([''out'', ''notes.txt''], File 420 ''Contains github.com/openai/openai-go/v3 reference''),
         ([''out'', ''sub''], Dir 448),
         ([''out'', ''sub'', ''util.go''], File 384 ''package util'')],
      writes = []\<rparr>"

definition exPath :: world where
  "exPath =
     \<lparr>files =
        [([], Dir 493),
         ([''out''], Dir 493),
         ([''out'', ''go.mod''], File 420 ''module github.com/x/foo'')],
      writes = []\<rparr>"

definition exTreeRewritten :: world where
  "exTreeRewritten =
     \<lparr>files =
        [([], Dir 493),
         ([''out''], Dir 493),
         ([''out'', ''go.mod''], File 420 ''module github.com/myorg/myproject''),
         ([''out'', ''main.go''], File 420 ''import github.com/myorg/myproject/responses''),
         ([''out'', ''notes.txt''], File 420 ''Contains github.com/openai/openai-go/v3 reference''),
         ([''out'', ''sub''], Dir 448),
         ([''out'', ''sub'', ''util.go''], File 384 ''package util'')],
      writes = [[''out'', ''go.mod''], [''out'', ''main.go'']]\<rparr>"

definition exPathOnce :: world where
  "exPathOnce =
     \<lparr>files =
        [([], Dir 493),
         ([''out''], Dir 493),
         ([''out'', ''go.mod''], File 420 ''module github.com/x/foo/v2'')],
      writes = [[''out'', ''go.mod'']]\<rparr>"

definition exPathTwice :: world where
  "exPathTwice =
     \<lparr>files =
        [([], Dir 493),
         ([''out''], Dir 493),
         ([''out'', ''go.mod''], File 420 ''module github.com/x/foo/v2/v2'')],
      writes = [[''out'', ''go.mod''], [''out'', ''go.mod'']]\<rparr>"

text \<open>
  A module \<open>m\<close> with a package \<open>lib\<close> and a directory \<open>sub\<close>, to be copied to \<open>out\<close>,
  where a regular file named \<open>sub\<close> is in the way; the same store after \<open>lib\<close> and
  \<open>main.go\<close> have been copied; the store after \<open>out/new\<close> has been made; the flags
  and the start of a run; and a tree whose source lies inside its destination.
\<close>

definition exBlocked :: world where
  "exBlocked =
     \<lparr>files =
        [([], Dir 493),
         ([''m''], Dir 493),
         ([''m'', ''lib''], Dir 448),
         ([''m'', ''lib'', ''l.go''], File 420 ''package lib''),
         ([''m'', ''main.go''], File 384 ''package main''),
         ([''m'', ''sub''], Dir 493),
         ([''m'', ''sub'', ''x.go''], File 420 ''package sub''),
         ([''out''], Dir 493),
         ([''out'', ''sub''], File 420 ''in the way'')],
      writes = []\<rparr>"


definition exStart :: progress where
  "exStart = \<lparr>pr_world = exBlocked, pr_stdout = [], pr_stderr = [], pr_copied = 0\<rparr>"


definition exCfg :: config where
  "exCfg = \<lparr>cfg_pkg = ''./lib'', cfg_output = [''out''], cfg_moduleOnly = False,
     cfg_modName = [], cfg_verbose = False\<rparr>"






section \<open>Claims about the Module Rewriter\<close>

lemma exTree_run:
  "replaceModuleInFiles exTree [''out''] ''github.com/openai/openai-go/v3''
     ''github.com/myorg/myproject'' = Some (exTreeRewritten, None)"
  by code_simp

lemma gone_check:
  assumes "list_all (\<lambda>kv. case snd kv of
              File m c \<Rightarrow> \<not> (prefix dir (fst kv) \<and> goName (base (fst kv))) \<or> Index c old = None
            | Dir m \<Rightarrow> True) (files w)"
  shows "\<forall>q m c. prefix dir q \<and> lookup w q = Some (File m c) \<and>
           (suffix ''.go'' (base q) \<or> base q = ''go.mod'') \<longrightarrow> \<not> occursIn old c"
proof (intro allI impI)
  fix q m c
  assume a: "prefix dir q \<and> lookup w q = Some (File m c) \<and>
           (suffix ''.go'' (base q) \<or> base q = ''go.mod'')"
  then have "(q, File m c) \<in> set (files w)"
    by (auto simp: lookup_def dest: map_of_SomeD)
  with assms have "\<not> (prefix dir q \<and> goName (base q)) \<or> Index c old = None"
    by (auto simp: list_all_iff)
  with a show "\<not> occursIn old c"
    by (simp add: goName_iff Index_None_iff)
qed

text \<open>
  C2.  On a well-formed store, when \<open>replaceModuleInFiles\<close> returns without error, every
  regular file at or below \<open>rootDir\<close> whose name ends in \<open>.go\<close> or is \<open>go.mod\<close> holds its
  old content with every non-overlapping occurrence of \<open>oldModule\<close> replaced by
  \<open>newModule\<close> (the replacement in the specification's words, \<open>replaceEverySpec\<close>);
  every other path, a file with another name that contains \<open>oldModule\<close> included, is
  unchanged, and modes do not change.  The files written are exactly those whose content
  changed, each written once.
\<close>

theorem C2_rewriteModuleReferences:
  assumes "wellFormed w"
    and "replaceModuleInFiles w rootDir oldModule newModule = Some (w', None)"
  shows "(\<forall>q. lookup w' q =
            (case lookup w q of
               Some (File m c) \<Rightarrow>
                 Some (File m (if prefix rootDir q \<and> (suffix ''.go'' (base q) \<or> base q = ''go.mod'')
                               then replaceEverySpec oldModule newModule c else c))
             | v \<Rightarrow> v))
         \<and> (\<exists>ws. writes w' = writes w @ ws \<and> distinct ws \<and>
               set ws = {q. prefix rootDir q \<and>
                 (\<exists>m c. lookup w q = Some (File m c) \<and>
                    (suffix ''.go'' (base q) \<or> base q = ''go.mod'') \<and>
                    replaceEverySpec oldModule newModule c \<noteq> c)})"
proof -
  have r: "rewrote oldModule newModule w w' (below rootDir)"
    using assms by (rule replaceModuleInFiles_rewrote)
  have a: "lookup w' q =
            (case lookup w q of
               Some (File m c) \<Rightarrow>
                 Some (File m (if prefix rootDir q \<and> (suffix ''.go'' (base q) \<or> base q = ''go.mod'')
                               then replaceEverySpec oldModule newModule c else c))
             | v \<Rightarrow> v)" for q
  proof -
    from r have "lookup w' q = (if q \<in> below rootDir
        then map_option (rewriteNode oldModule newModule q) (lookup w q) else lookup w q)"
      by (simp add: rewrote_def)
    then show ?thesis
      by (auto simp: below_def rewriteNode_def goName_iff ReplaceAll_spec
          split: option.splits node.splits)
  qed
  have s: "{q \<in> below rootDir. rewritesAt oldModule newModule w q} =
      {q. prefix rootDir q \<and>
                 (\<exists>m c. lookup w q = Some (File m c) \<and>
                    (suffix ''.go'' (base q) \<or> base q = ''go.mod'') \<and>
                    replaceEverySpec oldModule newModule c \<noteq> c)}"
    by (auto simp: below_def rewritesAt_iff)
  from r obtain ws where "writes w' = writes w @ ws" "distinct ws"
    "set ws = {q \<in> below rootDir. rewritesAt oldModule newModule w q}"
    unfolding rewrote_def by blast
  with s a show ?thesis by auto
qed

theorem C2_rewriteModuleReferences_witness:
  "wellFormed exTree
   \<and> replaceModuleInFiles exTree [''out''] ''github.com/openai/openai-go/v3''
       ''github.com/myorg/myproject'' = Some (exTreeRewritten, None)
   \<and> lookup exTreeRewritten [''out'', ''notes.txt'']
       = Some (File 420 ''Contains github.com/openai/openai-go/v3 reference'')
   \<and> lookup exTreeRewritten [''out'', ''go.mod'']
       = Some (File 420 (replaceEverySpec ''github.com/openai/openai-go/v3''
           ''github.com/myorg/myproject'' ''module github.com/openai/openai-go/v3''))
   \<and> replaceEverySpec ''github.com/openai/openai-go/v3'' ''github.com/myorg/myproject''
       ''module github.com/openai/openai-go/v3'' = ''module github.com/myorg/myproject''"
proof -
  have wf: "wellFormed exTree"
    by code_simp
  have l1: "lookup exTree [''out'', ''notes.txt'']
      = Some (File 420 ''Contains github.com/openai/openai-go/v3 reference'')"
    by code_simp
  have l2: "lookup exTree [''out'', ''go.mod'']
      = Some (File 420 ''module github.com/openai/openai-go/v3'')"
    by code_simp
  have b1: "base [''out'', ''notes.txt''] = ''notes.txt''" and b2: "base [''out'', ''go.mod''] = ''go.mod''"
    by (simp_all add: base_def)
  have sp: "replaceEverySpec ''github.com/openai/openai-go/v3'' ''github.com/myorg/myproject''
       ''module github.com/openai/openai-go/v3'' = ''module github.com/myorg/myproject''"
    by code_simp
  from C2_rewriteModuleReferences [OF wf exTree_run]
  have "\<forall>q. lookup exTreeRewritten q =
            (case lookup exTree q of
               Some (File m c) \<Rightarrow>
                 Some (File m (if prefix [''out''] q \<and> (suffix ''.go'' (base q) \<or> base q = ''go.mod'')
                               then replaceEverySpec ''github.com/openai/openai-go/v3''
                                 ''github.com/myorg/myproject'' c else c))
             | v \<Rightarrow> v)"
    by blast
  then have "lookup exTreeRewritten [''out'', ''notes.txt'']
       = Some (File 420 ''Contains github.com/openai/openai-go/v3 reference'')"
    and "lookup exTreeRewritten [''out'', ''go.mod'']
       = Some (File 420 (replaceEverySpec ''github.com/openai/openai-go/v3''
           ''github.com/myorg/myproject'' ''module github.com/openai/openai-go/v3''))"
    by (simp_all add: l1 l2 b1 b2 suffix_def)
  with wf exTree_run sp show ?thesis by blast
qed

text \<open>
  C6 as stated fails: with the new module name \<open>github.com/x/foo/v2\<close> for
  \<open>github.com/x/foo\<close>, the first run leaves an occurrence of the old name in \<open>go.mod\<close>,
  and the second run rewrites and writes the file again.
\<close>

theorem C6_idempotence_counterexample:
  "replaceModuleInFiles exPath [''out''] ''github.com/x/foo'' ''github.com/x/foo/v2''
     = Some (exPathOnce, None)
   \<and> replaceModuleInFiles exPathOnce [''out''] ''github.com/x/foo'' ''github.com/x/foo/v2''
     = Some (exPathTwice, None)
   \<and> lookup exPathOnce [''out'', ''go.mod''] = Some (File 420 ''module github.com/x/foo/v2'')
   \<and> lookup exPathTwice [''out'', ''go.mod''] = Some (File 420 ''module github.com/x/foo/v2/v2'')
   \<and> writes exPathOnce = [[''out'', ''go.mod'']]
   \<and> writes exPathTwice = [[''out'', ''go.mod''], [''out'', ''go.mod'']]"
  by code_simp

text \<open>
  C6, amended.  When a run of \<open>replaceModuleInFiles\<close> has returned without error and no
  file at or below \<open>rootDir\<close> named \<open>*.go\<close> or \<open>go.mod\<close> contains \<open>oldModule\<close> any more, a
  second run with the same arguments returns without error and leaves the world as it
  is: the same contents, and no further write.
\<close>

theorem C6_second_run_noop:
  assumes "replaceModuleInFiles w rootDir oldModule newModule = Some (w1, None)"
    and "\<forall>q m c. prefix rootDir q \<and> lookup w1 q = Some (File m c) \<and>
           (suffix ''.go'' (base q) \<or> base q = ''go.mod'') \<longrightarrow> \<not> occursIn oldModule c"
  shows "replaceModuleInFiles w1 rootDir oldModule newModule = Some (w1, None)"
proof (rule replaceModuleInFiles_noop)
  show "\<forall>q \<in> below rootDir. \<not> rewritesAt oldModule newModule w1 q"
  proof
    fix q assume q: "q \<in> below rootDir"
    show "\<not> rewritesAt oldModule newModule w1 q"
    proof
      assume "rewritesAt oldModule newModule w1 q"
      then obtain m c where c: "lookup w1 q = Some (File m c)"
        "suffix ''.go'' (base q) \<or> base q = ''go.mod''"
        "replaceEverySpec oldModule newModule c \<noteq> c"
        unfolding rewritesAt_iff by blast
      with q assms(2) have "\<not> occursIn oldModule c"
        unfolding below_def by blast
      then have "ReplaceAll c oldModule newModule = c"
        by (rule ReplaceAll_absent)
      with c(3) show False by (simp add: ReplaceAll_spec)
    qed
  qed
  have "lookup w rootDir \<noteq> None"
    using assms(1) by (rule replaceModuleInFiles_ok_exists)
  moreover have "sameShape w w1"
    using assms(1) unfolding replaceModuleInFiles_def by (rule Walk_shape)
  ultimately show "lookup w1 rootDir \<noteq> None"
    by (simp add: sameShape_None)
qed

theorem C6_second_run_noop_witness:
  "replaceModuleInFiles exTree [''out''] ''github.com/openai/openai-go/v3''
       ''github.com/myorg/myproject'' = Some (exTreeRewritten, None)
   \<and> replaceModuleInFiles exTreeRewritten [''out''] ''github.com/openai/openai-go/v3''
       ''github.com/myorg/myproject'' = Some (exTreeRewritten, None)"
proof -
  have "list_all (\<lambda>kv. case snd kv of
              File m c \<Rightarrow> \<not> (prefix [''out''] (fst kv) \<and> goName (base (fst kv)))
                \<or> Index c ''github.com/openai/openai-go/v3'' = None
            | Dir m \<Rightarrow> True) (files exTreeRewritten)"
    by code_simp
  then have gone: "\<forall>q m c. prefix [''out''] q \<and> lookup exTreeRewritten q = Some (File m c) \<and>
           (suffix ''.go'' (base q) \<or> base q = ''go.mod'') \<longrightarrow>
           \<not> occursIn ''github.com/openai/openai-go/v3'' c"
    by (rule gone_check)
  from C6_second_run_noop [OF exTree_run gone] exTree_run show ?thesis by blast
qed

text \<open>
  C10.  \<open>replaceModuleInFiles\<close> always returns, and whatever it returns (an error
  included), no path has changed its mode or turned from file to directory or back.  A
  file whose content changes is written by \<open>os.WriteFile\<close> with the mode of its own info,
  and holds that mode afterwards.
\<close>

theorem C10_rewrite_keeps_modes:
  "(\<exists>w' r. replaceModuleInFiles w rootDir oldModule newModule = Some (w', r))
   \<and> (\<forall>w' r q. replaceModuleInFiles w rootDir oldModule newModule = Some (w', r) \<longrightarrow>
         map_option nodeMode (lookup w' q) = map_option nodeMode (lookup w q)
         \<and> isDirNode (lookup w' q) = isDirNode (lookup w q))
   \<and> (\<forall>p m c. lookup w p = Some (File m c) \<and> goName (base p)
         \<and> ReplaceAll c oldModule newModule \<noteq> c \<longrightarrow>
         rewriteFn oldModule newModule w p (Some (infoOf p (File m c))) None
           = os_WriteFile w p (ReplaceAll c oldModule newModule) m
         \<and> lookup (fst (os_WriteFile w p (ReplaceAll c oldModule newModule) m)) p
           = Some (File m (ReplaceAll c oldModule newModule)))"
proof -
  have a: "\<exists>w' r. replaceModuleInFiles w rootDir oldModule newModule = Some (w', r)"
    using replaceModuleInFiles_returns [of w rootDir oldModule newModule] by auto
  have b: "map_option nodeMode (lookup w' q) = map_option nodeMode (lookup w q)
         \<and> isDirNode (lookup w' q) = isDirNode (lookup w q)"
    if "replaceModuleInFiles w rootDir oldModule newModule = Some (w', r)" for w' r q
  proof -
    have s: "sameShape w w'"
      using that unfolding replaceModuleInFiles_def by (rule Walk_shape)
    then have "shapeOf (lookup w' q) = shapeOf (lookup w q)"
      by (simp add: sameShape_def)
    then have "map_option nodeMode (lookup w' q) = map_option nodeMode (lookup w q)"
      by (cases "lookup w' q"; cases "lookup w q") (auto simp: shapeOf_def)
    with s show ?thesis by (simp add: isDirNode_shape)
  qed
  have c: "rewriteFn oldModule newModule w p (Some (infoOf p (File m c))) None
           = os_WriteFile w p (ReplaceAll c oldModule newModule) m
         \<and> lookup (fst (os_WriteFile w p (ReplaceAll c oldModule newModule) m)) p
           = Some (File m (ReplaceAll c oldModule newModule))"
    if "lookup w p = Some (File m c)" "goName (base p)" "ReplaceAll c oldModule newModule \<noteq> c"
    for p m c
    using that
    by (simp add: rewriteFn_info rewritesAt_def rewriteNode_def os_WriteFile_existing
        lookup_writes_upd lookup_put)
  from a b c show ?thesis by blast
qed

theorem C10_rewrite_keeps_modes_witness:
  "replaceModuleInFiles exTree [''out''] ''github.com/openai/openai-go/v3''
       ''github.com/myorg/myproject'' = Some (exTreeRewritten, None)
   \<and> map_option nodeMode (lookup exTreeRewritten [''out'', ''go.mod''])
       = map_option nodeMode (lookup exTree [''out'', ''go.mod''])
   \<and> map_option nodeMode (lookup exTree [''out'', ''go.mod'']) = Some 420"
proof -
  have "map_option nodeMode (lookup exTree [''out'', ''go.mod'']) = Some 420"
    by code_simp
  with C10_rewrite_keeps_modes [of exTree "[''out'']" "''github.com/openai/openai-go/v3''"
      "''github.com/myorg/myproject''"] exTree_run
  show ?thesis by blast
qed

section \<open>Facts about the Tree Copier and the copy loop\<close>










declare os_MkdirAll.simps [simp del]










lemma copyLoop_external:
  "\<forall>d \<in> set deps. \<not> inModule d modulePath \<Longrightarrow>
   copyLoop n cfg modulePath moduleDir st deps =
     Some (st\<lparr>pr_stdout := pr_stdout st @
       (if cfg_verbose cfg then map SkippingExternal deps else [])\<rparr>)"
proof (induction deps arbitrary: st)
  case Nil
  then show ?case by simp
next
  case (Cons dep deps)
  then show ?case
    by (simp add: inModule_def)
qed











lemma os_MkdirAll_writes: "os_MkdirAll w p perm = (w', r) \<Longrightarrow> writes w' = writes w"
proof (induction w p perm arbitrary: w' r rule: os_MkdirAll.induct)
  case (1 w p perm)
  have mk: "os_Mkdir w0 p perm = (w', r) \<Longrightarrow> writes w' = writes w0" for w0
    by (auto simp: os_Mkdir_def writes_put split: if_splits option.splits node.splits)
  show ?case
  proof (cases "lookup w p")
    case (Some v)
    with "1.prems" show ?thesis
      by (subst (asm) os_MkdirAll.simps) (auto split: node.splits)
  next
    case None
    show ?thesis
    proof (cases "1 < length p")
      case False
      with None "1.prems"(1) have "os_Mkdir w p perm = (w', r)"
        by (subst (asm) os_MkdirAll.simps) simp
      then show ?thesis by (rule mk)
    next
      case True
      obtain w1 r1 where m: "os_MkdirAll w (butlast p) perm = (w1, r1)"
        by (cases "os_MkdirAll w (butlast p) perm")
      have e1: "writes w1 = writes w"
        using "1.IH" [OF None True m] .
      show ?thesis
      proof (cases r1)
        case (Some e)
        with None True m "1.prems" have "w' = w1"
          by (subst (asm) os_MkdirAll.simps) simp
        with e1 show ?thesis by simp
      next
        case n: None
        with None True m "1.prems" have "os_Mkdir w1 p perm = (w', r)"
          by (subst (asm) os_MkdirAll.simps) simp
        then have "writes w' = writes w1" by (rule mk)
        with e1 show ?thesis by simp
      qed
    qed
  qed
qed

























section \<open>Claims about the Tree Copier and the Orchestrator\<close>

text \<open>
  C1 does not hold of the code.  The copy loop never reads the flag \<open>-module-only\<close>:
  when every dependency in the list is external, the loop with the flag off returns the
  state it started from (plus one \<open>Skipping external\<close> line per dependency under
  \<open>-v\<close>), exactly as with the flag on.  No external dependency reaches \<open>copyDir\<close>.
\<close>

theorem C1_external_always_skipped:
  assumes "\<forall>d \<in> set deps. \<not> inModule d modulePath"
  shows "copyLoop n (cfg\<lparr>cfg_moduleOnly := False\<rparr>) modulePath moduleDir st deps =
           Some (st\<lparr>pr_stdout := pr_stdout st @
             (if cfg_verbose cfg then map SkippingExternal deps else [])\<rparr>)
         \<and> copyLoop n (cfg\<lparr>cfg_moduleOnly := True\<rparr>) modulePath moduleDir st deps =
           copyLoop n (cfg\<lparr>cfg_moduleOnly := False\<rparr>) modulePath moduleDir st deps"
  using copyLoop_external [OF assms, of n "cfg\<lparr>cfg_moduleOnly := False\<rparr>" moduleDir st]
    copyLoop_external [OF assms, of n "cfg\<lparr>cfg_moduleOnly := True\<rparr>" moduleDir st]
  by simp

theorem C1_external_always_skipped_witness:
  "\<not> inModule ''github.com/other/lib'' ''x/m'' \<and> \<not> inModule ''fmt'' ''x/m''
   \<and> copyLoop 3 (exCfg\<lparr>cfg_moduleOnly := False\<rparr>) ''x/m'' [''m''] exStart
        [''github.com/other/lib'', ''fmt''] = Some exStart
   \<and> selector (exCfg\<lparr>cfg_moduleOnly := False\<rparr>) = '':all''"
proof -
  have h: "\<forall>d \<in> set [''github.com/other/lib'', ''fmt'']. \<not> inModule d ''x/m''"
    by (simp add: inModule_def HasPrefix_def)
  have v: "\<not> cfg_verbose exCfg"
    by (simp add: exCfg_def)
  have s: "selector (exCfg\<lparr>cfg_moduleOnly := False\<rparr>) = '':all''"
    by (simp add: selector_def)
  from C1_external_always_skipped [OF h, of 3 exCfg "[''m'']" exStart] v h s
  show ?thesis by simp
qed








end
